theory Spec2Isabelle
  imports Main
begin

section \<open>Tokens and diagnostics\<close>

text \<open>
  A token array of the shell (\<^verbatim>\<open>char **\<close>, terminated by \<^verbatim>\<open>NULL\<close>) is a list of
  strings; \<^verbatim>\<open>tokens[i] == NULL\<close> is the end of the list. Heap allocation is not part
  of the model: \<^verbatim>\<open>malloc\<close>, \<^verbatim>\<open>strdup\<close> and \<^verbatim>\<open>realloc\<close> are taken to succeed.

  Every \<^verbatim>\<open>fprintf(stderr, ...)\<close> and \<^verbatim>\<open>perror\<close> of the sources is a value of
  \<open>diag\<close>. The four syntax errors are the messages
  \<^verbatim>\<open>syntax error: missing command\<close>, \<^verbatim>\<open>syntax error: missing command after pipe\<close>,
  \<^verbatim>\<open>syntax error: missing file for redirection\<close> (and the three
  \<^verbatim>\<open>missing output/error/input file\<close> messages of the executor) and
  \<^verbatim>\<open>too many pipes\<close>.
\<close>

datatype syntax_error =
    MissingCommand
  | MissingCommandAfterPipe
  | MissingRedirectTarget
  | TooManyPipes

section \<open>The pipeline splitter (\<^verbatim>\<open>split_pipeline\<close>, parser.c)\<close>

text \<open>
  \<^verbatim>\<open>int max_cmds = 10;  // Maximum 10 pipes (11 commands)\<close>
\<close>

definition max_cmds :: nat where
  "max_cmds = 10"

text \<open>
  The loop \<^verbatim>\<open>for (i = 0; tokens[i] != NULL; i++)\<close>. The first argument is the part
  of the array not yet read, \<^verbatim>\<open>tokens[i..]\<close>; \<open>seg\<close> is \<^verbatim>\<open>tokens[start..i)\<close>, so
  \<^verbatim>\<open>i == start\<close> is \<open>seg = []\<close> and \<^verbatim>\<open>start = i + 1\<close> empties it; \<open>commands\<close> holds
  the segments copied so far and \<^verbatim>\<open>*cmd_count\<close> is its length. The order of the
  three checks at a \<^verbatim>\<open>|\<close> is the order of the source: empty segment before the
  pipe, nothing after the pipe, then the copy, the increment and the test
  \<^verbatim>\<open>*cmd_count >= max_cmds\<close>. The equation for the empty list is the code after the
  loop (\<^verbatim>\<open>if (start >= i)\<close>, then the copy of the last command).
\<close>

fun split_loop :: "string list \<Rightarrow> string list \<Rightarrow> string list list
    \<Rightarrow> syntax_error + string list list" where
  "split_loop [] seg commands =
     (if seg = [] then Inl MissingCommand else Inr (commands @ [seg]))"
| "split_loop (t # ts) seg commands =
     (if t = ''|'' then
        (if seg = [] then Inl MissingCommand
         else if ts = [] then Inl MissingCommandAfterPipe
         else if length (commands @ [seg]) \<ge> max_cmds then Inl TooManyPipes
         else split_loop ts [] (commands @ [seg]))
      else split_loop ts (seg @ [t]) commands)"

definition split_pipeline :: "string list \<Rightarrow> syntax_error + string list list" where
  "split_pipeline tokens = split_loop tokens [] []"

text \<open>
  The token sequence a pipeline stands for: its segments in order, one \<^verbatim>\<open>|\<close> between
  two consecutive segments.
\<close>

fun join_pipeline :: "string list list \<Rightarrow> string list" where
  "join_pipeline [] = []"
| "join_pipeline [seg] = seg"
| "join_pipeline (seg # segs) = seg @ [''|''] @ join_pipeline segs"

text \<open>A pipeline of \<open>n\<close> copies of one command, \<open>n - 1\<close> pipe operators between them.\<close>

definition chain :: "nat \<Rightarrow> string list" where
  "chain n = join_pipeline (replicate n [''a''])"


section \<open>The tokenizer (\<^verbatim>\<open>parse_input\<close>, parser.c)\<close>

text \<open>
  \<^verbatim>\<open>isspace\<close> of the C locale: space, \<^verbatim>\<open>\t\<close>, \<^verbatim>\<open>\n\<close>, \<^verbatim>\<open>\v\<close>, \<^verbatim>\<open>\f\<close>, \<^verbatim>\<open>\r\<close>.
  The two quote characters are \<^verbatim>\<open>"\<close> (0x22) and \<^verbatim>\<open>'\<close> (0x27).
\<close>

definition isspace :: "char \<Rightarrow> bool" where
  "isspace c = (c = CHR 0x20 \<or> c = CHR 0x09 \<or> c = CHR 0x0A \<or> c = CHR 0x0B
     \<or> c = CHR 0x0C \<or> c = CHR 0x0D)"

definition is_quote :: "char \<Rightarrow> bool" where
  "is_quote c = (c = CHR 0x22 \<or> c = CHR 0x27)"

text \<open>
  The inner loop \<^verbatim>\<open>while (i < len)\<close> that finds the end of a token. The first argument
  is \<^verbatim>\<open>input_copy[i..len)\<close>, the part of the buffer not yet read; \<open>tok\<close> is
  \<^verbatim>\<open>input_copy[start..i)\<close>. The \<^verbatim>\<open>memmove\<close> that removes a quote deletes the character at
  \<open>i\<close> and leaves \<open>i\<close> where it is (\<^verbatim>\<open>len--; continue\<close>): the character is dropped
  and not added to \<open>tok\<close>. \<^verbatim>\<open>i++\<close> moves the character into \<open>tok\<close>. The result is the
  token and the unread rest, which starts at the whitespace that ended the token.
\<close>

fun scan_token :: "string \<Rightarrow> bool \<Rightarrow> char \<Rightarrow> string \<Rightarrow> string \<times> string" where
  "scan_token [] in_quotes quote_char tok = (tok, [])"
| "scan_token (c # cs) in_quotes quote_char tok =
     (if is_quote c \<and> \<not> in_quotes then scan_token cs True c tok
      else if is_quote c \<and> in_quotes \<and> c = quote_char then scan_token cs False quote_char tok
      else if \<not> in_quotes \<and> isspace c then (tok, c # cs)
      else scan_token cs in_quotes quote_char (tok @ [c]))"

lemma scan_token_rest_le:
  "length (snd (scan_token cs in_quotes quote_char tok)) \<le> length cs"
  by (induction cs in_quotes quote_char tok rule: scan_token.induct) auto

lemma scan_token_rest_less:
  "cs \<noteq> [] \<Longrightarrow> \<not> isspace (hd cs) \<Longrightarrow>
   length (snd (scan_token cs False quote_char tok)) < length cs"
proof (cases cs)
  case Nil
  then show "cs \<noteq> [] \<Longrightarrow> ?thesis" by simp
next
  case (Cons c cs')
  assume "\<not> isspace (hd cs)"
  then show ?thesis
    using Cons scan_token_rest_le [of cs' True c tok]
      scan_token_rest_le [of cs' False quote_char "tok @ [c]"]
    by (simp add: less_Suc_eq_le)
qed

text \<open>
  The outer loop \<^verbatim>\<open>while (i < len)\<close>. \<open>buf\<close> is \<^verbatim>\<open>input_copy[i..len)\<close> and \<open>tokens\<close> the
  tokens stored so far (the array \<^verbatim>\<open>tokens\<close> with its \<^verbatim>\<open>position\<close>; its growth by
  \<^verbatim>\<open>realloc\<close> is not modelled). One round skips leading whitespace, leaves the loop at
  the end of the buffer, scans one token, stores it when its length is positive, skips
  trailing whitespace, and, when the next two characters are \<^verbatim>\<open>>>\<close>, stores the token
  \<^verbatim>\<open>>>\<close> and skips them. Reading \<^verbatim>\<open>input_copy[i]\<close> at \<open>i = len\<close> gives the terminating
  NUL, which is not \<^verbatim>\<open>>\<close>: the test fails when fewer than two characters are left.
\<close>

function parse_loop :: "string \<Rightarrow> string list \<Rightarrow> string list" where
  "parse_loop buf tokens =
     (let buf1 = dropWhile isspace buf in
      if buf1 = [] then tokens
      else
        let scanned = scan_token buf1 False (CHR 0x00) [];
            tokens1 = (if fst scanned \<noteq> [] then tokens @ [fst scanned] else tokens);
            buf3 = dropWhile isspace (snd scanned)
        in (case buf3 of
              c1 # c2 # buf4 \<Rightarrow>
                if c1 = CHR ''>'' \<and> c2 = CHR ''>''
                then parse_loop buf4 (tokens1 @ [''>>''])
                else parse_loop buf3 tokens1
            | _ \<Rightarrow> parse_loop buf3 tokens1))"
  by pat_completeness auto

lemma parse_loop_progress:
  assumes "dropWhile isspace buf \<noteq> []"
  shows "length (dropWhile isspace (snd (scan_token (dropWhile isspace buf) False q []))) < length buf"
proof -
  let ?buf1 = "dropWhile isspace buf"
  have "\<not> isspace (hd ?buf1)"
    using assms by (rule hd_dropWhile)
  then have "length (snd (scan_token ?buf1 False q [])) < length ?buf1"
    using assms by (simp add: scan_token_rest_less)
  moreover have "length ?buf1 \<le> length buf"
    by (rule length_dropWhile_le)
  moreover have "length (dropWhile isspace (snd (scan_token ?buf1 False q [])))
      \<le> length (snd (scan_token ?buf1 False q []))"
    by (rule length_dropWhile_le)
  ultimately show ?thesis by linarith
qed

termination parse_loop
proof (relation "measure (\<lambda>(buf, tokens). length buf)")
  show "wf (measure (\<lambda>(buf, tokens). length buf))" by simp
next
  fix buf :: string and tokens :: "string list" and x xa xb xc x21 x22 x21a x22a
  assume "x = dropWhile isspace buf" "x \<noteq> []" "xa = scan_token x False (CHR 0x00) []"
    "xc = dropWhile isspace (snd xa)" "xc = x21 # x22" "x22 = x21a # x22a"
  then have "length (x21 # x21a # x22a) < length buf"
    using parse_loop_progress [of buf "CHR 0x00"] by simp
  then show "((x22a, xb @ [''>>'']), buf, tokens) \<in> measure (\<lambda>(buf, tokens). length buf)"
    by simp
next
  fix buf :: string and tokens :: "string list" and x xa xb xc x21 x22 x21a x22a
  assume "x = dropWhile isspace buf" "x \<noteq> []" "xa = scan_token x False (CHR 0x00) []"
    "xc = dropWhile isspace (snd xa)" "xc = x21 # x22" "x22 = x21a # x22a"
  then show "((xc, xb), buf, tokens) \<in> measure (\<lambda>(buf, tokens). length buf)"
    using parse_loop_progress [of buf "CHR 0x00"] by simp
next
  fix buf :: string and tokens :: "string list" and x xa xb xc
  assume "x = dropWhile isspace buf" "x \<noteq> []" "xa = scan_token x False (CHR 0x00) []"
    "xc = dropWhile isspace (snd xa)" "xc = []"
  then show "((xc, xb), buf, tokens) \<in> measure (\<lambda>(buf, tokens). length buf)"
    using parse_loop_progress [of buf "CHR 0x00"] by simp
next
  fix buf :: string and tokens :: "string list" and x xa xb xc x21 x22
  assume "x = dropWhile isspace buf" "x \<noteq> []" "xa = scan_token x False (CHR 0x00) []"
    "xc = dropWhile isspace (snd xa)" "xc = x21 # x22" "x22 = []"
  then show "((xc, xb), buf, tokens) \<in> measure (\<lambda>(buf, tokens). length buf)"
    using parse_loop_progress [of buf "CHR 0x00"] by simp
qed

definition parse_input :: "string \<Rightarrow> string list" where
  "parse_input input = parse_loop input []"


declare parse_loop.simps [simp del]

section \<open>The operating system as the shell uses it\<close>

text \<open>
  What a file descriptor refers to: the terminal the shell was started on, a file opened
  by \<^verbatim>\<open>open\<close> (with \<^verbatim>\<open>O_RDONLY\<close>, with \<^verbatim>\<open>O_WRONLY | O_CREAT | O_TRUNC\<close> or with
  \<^verbatim>\<open>O_WRONLY | O_CREAT | O_APPEND\<close>), or one end of a pipe.
\<close>

datatype fobj =
    Terminal
  | FileRead string
  | FileTrunc string
  | FileAppend string
  | PipeRead nat
  | PipeWrite nat

type_synonym fdtable = "int \<Rightarrow> fobj option"

text \<open>The messages the shell writes to its error stream.\<close>

datatype diag =
    SyntaxError syntax_error
  | NoSuchFile string
  | Perror
  | CdExpectedArgument
  | CdFailed string

text \<open>
  How a child process ends its part of the shell's code: it calls
  \<^verbatim>\<open>execvp(args[0], args)\<close>, or it calls \<^verbatim>\<open>exit(EXIT_FAILURE)\<close>. What the program run
  by \<^verbatim>\<open>execvp\<close> does, and whether it is found, is outside the model.
\<close>

datatype child_end = Exec "string list" | ExitFailure

record child =
  ended :: child_end
  child_fds :: fdtable

datatype event = Forked nat | Report diag | Waited nat | UndefinedBehaviour

text \<open>
  The state the shell runs in. \<open>files\<close> maps a path to the contents of the regular file
  there; \<open>write_denied\<close> are the paths \<^verbatim>\<open>open\<close> refuses to open for writing; \<open>fds\<close> is
  the descriptor table of the shell process and \<open>fd_limit\<close> the number of descriptors
  a process may hold; \<open>pipes_made\<close> numbers the pipes; \<open>forks_left\<close> is the number of
  \<^verbatim>\<open>fork\<close> calls that still succeed; \<open>children\<close> are the processes forked so far, the
  process id of a child being its index, each with the way it ended and the descriptor
  table it ended with; \<open>trace\<close> is the order in which forks, messages and waits
  happened; \<open>cwd\<close> and \<open>dirs\<close> serve \<^verbatim>\<open>chdir\<close>; \<open>exited\<close> says that the shell itself
  called \<^verbatim>\<open>exit\<close>.
\<close>

record world =
  files :: "string \<Rightarrow> string option"
  write_denied :: "string set"
  fds :: fdtable
  fd_limit :: nat
  pipes_made :: nat
  forks_left :: nat
  children :: "child list"
  trace :: "event list"
  cwd :: string
  dirs :: "string set"
  exited :: bool

definition report :: "diag \<Rightarrow> world \<Rightarrow> world" where
  "report d w = w\<lparr>trace := trace w @ [Report d]\<rparr>"

text \<open>The lowest descriptor that is not open, searched from \<open>n\<close> over \<open>k\<close> descriptors.\<close>

fun free_fd :: "fdtable \<Rightarrow> int \<Rightarrow> nat \<Rightarrow> int option" where
  "free_fd t n 0 = None"
| "free_fd t n (Suc k) = (if t n = None then Some n else free_fd t (n + 1) k)"

datatype open_mode = O_RDONLY | O_TRUNC | O_APPEND

text \<open>
  \<^verbatim>\<open>open(path, flags, 0644)\<close>: \<open>-1\<close> and no change when no descriptor is free, when the
  file to read does not exist, or when the path may not be written; otherwise the
  lowest free descriptor. \<^verbatim>\<open>O_CREAT | O_TRUNC\<close> leaves an empty file at the path,
  \<^verbatim>\<open>O_CREAT | O_APPEND\<close> creates an empty file when there is none and keeps the
  contents of one that exists.
\<close>

definition sys_open :: "string \<Rightarrow> open_mode \<Rightarrow> world \<Rightarrow> int \<times> world" where
  "sys_open path mode w =
     (case free_fd (fds w) 0 (fd_limit w) of
        None \<Rightarrow> (-1, w)
      | Some fd \<Rightarrow>
          (case mode of
             O_RDONLY \<Rightarrow>
               (if files w path = None then (-1, w)
                else (fd, w\<lparr>fds := (fds w)(fd \<mapsto> FileRead path)\<rparr>))
           | O_TRUNC \<Rightarrow>
               (if path \<in> write_denied w then (-1, w)
                else (fd, w\<lparr>fds := (fds w)(fd \<mapsto> FileTrunc path),
                             files := (files w)(path \<mapsto> [])\<rparr>))
           | O_APPEND \<Rightarrow>
               (if path \<in> write_denied w then (-1, w)
                else (fd, w\<lparr>fds := (fds w)(fd \<mapsto> FileAppend path),
                             files := (files w)(path \<mapsto>
                               (case files w path of None \<Rightarrow> [] | Some old \<Rightarrow> old))\<rparr>))))"

definition sys_close :: "int \<Rightarrow> world \<Rightarrow> world" where
  "sys_close fd w = w\<lparr>fds := (fds w)(fd := None)\<rparr>"

text \<open>\<^verbatim>\<open>dup2(oldfd, newfd)\<close>: \<open>-1\<close> when \<open>oldfd\<close> is not open.\<close>

definition sys_dup2 :: "int \<Rightarrow> int \<Rightarrow> world \<Rightarrow> int \<times> world" where
  "sys_dup2 oldfd newfd w =
     (if fds w oldfd = None then (-1, w)
      else (newfd, w\<lparr>fds := (fds w)(newfd := fds w oldfd)\<rparr>))"

text \<open>
  \<^verbatim>\<open>pipe(fildes)\<close>: the two lowest free descriptors, the read end first; it fails, with
  no descriptor taken, when fewer than two are free.
\<close>

definition sys_pipe :: "world \<Rightarrow> (int \<times> int) option \<times> world" where
  "sys_pipe w =
     (case free_fd (fds w) 0 (fd_limit w) of
        None \<Rightarrow> (None, w)
      | Some r \<Rightarrow>
          (case free_fd ((fds w)(r \<mapsto> PipeRead (pipes_made w))) 0 (fd_limit w) of
             None \<Rightarrow> (None, w)
           | Some wr \<Rightarrow>
               (Some (r, wr),
                w\<lparr>fds := (fds w)(r \<mapsto> PipeRead (pipes_made w), wr \<mapsto> PipeWrite (pipes_made w)),
                  pipes_made := pipes_made w + 1\<rparr>)))"

text \<open>
  \<^verbatim>\<open>fork()\<close>. In the parent it fails when no fork is left, and otherwise returns the new
  process id. The child starts with a copy of the shell's state; \<open>body\<close> is the code the
  child runs until it ends. What the child did to the files and wrote to the error
  stream is visible to the shell afterwards; the child's descriptor table is its own.
\<close>

definition sys_fork :: "(world \<Rightarrow> child_end \<times> world) \<Rightarrow> world \<Rightarrow> nat option \<times> world" where
  "sys_fork body w =
     (if forks_left w = 0 then (None, w)
      else
        let pid = length (children w);
            w1 = w\<lparr>forks_left := forks_left w - 1, trace := trace w @ [Forked pid]\<rparr>;
            (e, cw) = body w1
        in (Some pid,
            w1\<lparr>files := files cw, trace := trace cw,
               children := children w @ [\<lparr>ended = e, child_fds = fds cw\<rparr>]\<rparr>))"

definition sys_waitpid :: "nat \<Rightarrow> world \<Rightarrow> world" where
  "sys_waitpid pid w = w\<lparr>trace := trace w @ [Waited pid]\<rparr>"


section \<open>The command builder (\<^verbatim>\<open>parse_command\<close>, parser.c)\<close>

text \<open>The \<^verbatim>\<open>Command\<close> structure of executor.h; a descriptor field is \<open>-1\<close> if none.\<close>

record command =
  args :: "string list"
  input_fd :: int
  output_fd :: int
  error_fd :: int

text \<open>
  The three operators \<^verbatim>\<open>parse_command\<close> compares a token with:
  \<^verbatim>\<open>strcmp(tokens[i], "<") == 0 || strcmp(tokens[i], ">") == 0 || strcmp(tokens[i], "2>") == 0\<close>.
\<close>

definition is_redirect :: "string \<Rightarrow> bool" where
  "is_redirect t = (t = ''<'' \<or> t = ''>'' \<or> t = ''2>'')"

text \<open>
  The first loop of \<^verbatim>\<open>parse_command\<close>, over \<^verbatim>\<open>tokens[i..end)\<close>, with the values of
  \<^verbatim>\<open>has_command\<close> and \<^verbatim>\<open>arg_count\<close>. An operator that is the last token
  (\<^verbatim>\<open>i + 1 >= end\<close>) is the missing-file error; any other operator skips the token after
  it (\<^verbatim>\<open>i++; continue\<close>).
\<close>

fun count_args :: "string list \<Rightarrow> bool \<Rightarrow> nat \<Rightarrow> syntax_error + bool \<times> nat" where
  "count_args [] has_command arg_count = Inr (has_command, arg_count)"
| "count_args [t] has_command arg_count =
     (if is_redirect t then Inl MissingRedirectTarget else Inr (True, arg_count + 1))"
| "count_args (t # f # ts) has_command arg_count =
     (if is_redirect t then count_args ts has_command arg_count
      else count_args (f # ts) True (arg_count + 1))"

text \<open>
  The second loop. At an operator the next token is opened and the descriptor stored in
  the command; a failed \<^verbatim>\<open>open\<close> frees \<^verbatim>\<open>cmd->args\<close> and \<^verbatim>\<open>cmd\<close> and returns \<^verbatim>\<open>NULL\<close>,
  with the message that is the error value here, and with no call of \<^verbatim>\<open>close\<close>. Any
  other token is appended to \<^verbatim>\<open>cmd->args\<close>. An operator as the last token would open
  \<^verbatim>\<open>tokens[end]\<close>, the \<^verbatim>\<open>NULL\<close> that ends the array, which \<^verbatim>\<open>open\<close> refuses; the first
  loop has returned before on such a segment.
\<close>

fun build_loop :: "string list \<Rightarrow> command \<Rightarrow> world \<Rightarrow> (diag + command) \<times> world" where
  "build_loop [] cmd w = (Inr cmd, w)"
| "build_loop [t] cmd w =
     (if t = ''<'' then (Inl (NoSuchFile []), w)
      else if t = ''>'' then (Inl Perror, w)
      else if t = ''2>'' then (Inl Perror, w)
      else (Inr (cmd\<lparr>args := args cmd @ [t]\<rparr>), w))"
| "build_loop (t # f # ts) cmd w =
     (if t = ''<'' then
        (case sys_open f O_RDONLY w of (fd, w') \<Rightarrow>
           if fd < 0 then (Inl (NoSuchFile f), w')
           else build_loop ts (cmd\<lparr>input_fd := fd\<rparr>) w')
      else if t = ''>'' then
        (case sys_open f O_TRUNC w of (fd, w') \<Rightarrow>
           if fd < 0 then (Inl Perror, w')
           else build_loop ts (cmd\<lparr>output_fd := fd\<rparr>) w')
      else if t = ''2>'' then
        (case sys_open f O_TRUNC w of (fd, w') \<Rightarrow>
           if fd < 0 then (Inl Perror, w')
           else build_loop ts (cmd\<lparr>error_fd := fd\<rparr>) w')
      else build_loop (f # ts) (cmd\<lparr>args := args cmd @ [t]\<rparr>) w)"

text \<open>
  \<^verbatim>\<open>parse_command(tokens, start, end)\<close> on the segment \<^verbatim>\<open>tokens[start..end)\<close>; its one
  caller passes a whole segment of the pipeline (\<^verbatim>\<open>start = 0\<close>, \<open>end\<close> its length).
  \<open>Inl\<close> is the return value \<^verbatim>\<open>NULL\<close> with the message written before it.
\<close>

definition parse_command :: "string list \<Rightarrow> world \<Rightarrow> (diag + command) \<times> world" where
  "parse_command tokens w =
     (case count_args tokens False 0 of
        Inl e \<Rightarrow> (Inl (SyntaxError e), w)
      | Inr (has_command, arg_count) \<Rightarrow>
          if \<not> has_command then (Inl (SyntaxError MissingCommand), w)
          else build_loop tokens
                 \<lparr>args = [], input_fd = -1, output_fd = -1, error_fd = -1\<rparr> w)"

section \<open>The executor (executor.c)\<close>

text \<open>
  \<^verbatim>\<open>setup_redirection\<close> runs in the child of a simple command. Its first loop only counts
  the tokens to allocate for: \<open>count\<close> is the size of \<^verbatim>\<open>new_args\<close> and is used for nothing
  else. After an operator \<^verbatim>\<open><\<close>, \<^verbatim>\<open>>\<close> or \<^verbatim>\<open>2>\<close> the loop skips one token without
  looking at it (\<^verbatim>\<open>i++; continue\<close>); the operator \<^verbatim>\<open>>>\<close> and the token after it are
  counted like arguments. Behind an operator that is the last token the skipped slot is
  the \<^verbatim>\<open>NULL\<close> that ends the array, and the test of the loop reads the slot after it
  (for a line of fewer than 63 tokens one of the 64 slots \<^verbatim>\<open>parse_input\<close> allocated):
  the loop is taken to end there, with the count it has. The second loop starts again at
  the first token, and it is the second loop that finds and reports a missing file name.
\<close>

fun count_tokens :: "string list \<Rightarrow> nat \<Rightarrow> nat" where
  "count_tokens [] count = count"
| "count_tokens [t] count = (if is_redirect t then count else count + 1)"
| "count_tokens (t # f # ts) count =
     (if is_redirect t then count_tokens ts count else count_tokens (f # ts) (count + 1))"

text \<open>
  The way \<^verbatim>\<open>setup_redirection\<close> ends: it returns the new argument array, it returns
  \<^verbatim>\<open>NULL\<close> after a message, or (in the branch of \<^verbatim>\<open>>>\<close>) it calls
  \<^verbatim>\<open>exit(EXIT_FAILURE)\<close> after a message.
\<close>

datatype setup_result = NewArgs "string list" | Null diag | Exits diag

text \<open>
  The three calls every branch of the second loop makes: \<^verbatim>\<open>open\<close>, then
  \<^verbatim>\<open>dup2(fd, target)\<close>, then \<^verbatim>\<open>close(fd)\<close>.
\<close>

datatype redirected = OpenFailed | Dup2Failed int world | Redirected world

definition redirect_to :: "string \<Rightarrow> open_mode \<Rightarrow> int \<Rightarrow> world \<Rightarrow> redirected" where
  "redirect_to path mode target w =
     (case sys_open path mode w of (fd, w1) \<Rightarrow>
        if fd < 0 then OpenFailed
        else (case sys_dup2 fd target w1 of (r, w2) \<Rightarrow>
                if r < 0 then Dup2Failed fd w2 else Redirected (sys_close fd w2)))"

text \<open>
  The second loop of \<^verbatim>\<open>setup_redirection\<close>; \<open>new_args\<close> is \<^verbatim>\<open>new_args[0..j)\<close>. The
  branches of \<^verbatim>\<open>>\<close>, \<^verbatim>\<open>2>\<close> and \<^verbatim>\<open><\<close> return \<^verbatim>\<open>NULL\<close> on a failure, closing \<open>fd\<close>
  when it was \<^verbatim>\<open>dup2\<close> that failed; the branch of \<^verbatim>\<open>>>\<close> exits. The message is
  written first; the \<^verbatim>\<open>free_args(new_args)\<close> that follows it on the paths returning
  \<^verbatim>\<open>NULL\<close> belongs to the heap, which is not modelled.
\<close>

fun setup_loop :: "string list \<Rightarrow> string list \<Rightarrow> world \<Rightarrow> setup_result \<times> world" where
  "setup_loop [] new_args w = (NewArgs new_args, w)"
| "setup_loop [t] new_args w =
     (if t = ''>'' then (Null (SyntaxError MissingRedirectTarget), w)
      else if t = ''2>'' then (Null (SyntaxError MissingRedirectTarget), w)
      else if t = ''<'' then (Null (SyntaxError MissingRedirectTarget), w)
      else if t = ''>>'' then (Exits (SyntaxError MissingRedirectTarget), w)
      else (NewArgs (new_args @ [t]), w))"
| "setup_loop (t # f # ts) new_args w =
     (if t = ''>'' then
        (case redirect_to f O_TRUNC 1 w of
           OpenFailed \<Rightarrow> (Null Perror, w)
         | Dup2Failed fd w' \<Rightarrow> (Null Perror, sys_close fd w')
         | Redirected w' \<Rightarrow> setup_loop ts new_args w')
      else if t = ''2>'' then
        (case redirect_to f O_TRUNC 2 w of
           OpenFailed \<Rightarrow> (Null Perror, w)
         | Dup2Failed fd w' \<Rightarrow> (Null Perror, sys_close fd w')
         | Redirected w' \<Rightarrow> setup_loop ts new_args w')
      else if t = ''<'' then
        (case redirect_to f O_RDONLY 0 w of
           OpenFailed \<Rightarrow> (Null (NoSuchFile f), w)
         | Dup2Failed fd w' \<Rightarrow> (Null Perror, sys_close fd w')
         | Redirected w' \<Rightarrow> setup_loop ts new_args w')
      else if t = ''>>'' then
        (case redirect_to f O_APPEND 1 w of
           OpenFailed \<Rightarrow> (Exits Perror, w)
         | Dup2Failed fd w' \<Rightarrow> (Exits Perror, w')
         | Redirected w' \<Rightarrow> setup_loop ts new_args w')
      else setup_loop (f # ts) (new_args @ [t]) w)"

text \<open>
  \<^verbatim>\<open>setup_redirection(args)\<close>: the count, the allocation of \<^verbatim>\<open>count + 1\<close> slots, which
  is taken to succeed, and the second loop.
\<close>

definition setup_redirection :: "string list \<Rightarrow> world \<Rightarrow> setup_result \<times> world" where
  "setup_redirection as w = (let count = count_tokens as 0 in setup_loop as [] w)"

text \<open>
  The child of \<^verbatim>\<open>execute_command\<close>: \<^verbatim>\<open>setup_redirection\<close>, then \<^verbatim>\<open>execvp\<close> of the new
  arguments; \<^verbatim>\<open>exit(EXIT_FAILURE)\<close> when \<^verbatim>\<open>setup_redirection\<close> returned \<^verbatim>\<open>NULL\<close>. With an
  empty argument array, \<open>Exec []\<close>, the program name \<^verbatim>\<open>new_args[0]\<close> that \<^verbatim>\<open>execvp\<close>
  gets is \<^verbatim>\<open>NULL\<close>.
\<close>

definition command_child :: "string list \<Rightarrow> world \<Rightarrow> child_end \<times> world" where
  "command_child as w =
     (case setup_redirection as w of
        (NewArgs new_args, w') \<Rightarrow> (Exec new_args, w')
      | (Null d, w') \<Rightarrow> (ExitFailure, report d w')
      | (Exits d, w') \<Rightarrow> (ExitFailure, report d w'))"

text \<open>
  \<^verbatim>\<open>execute_command(args)\<close>: fork; the parent reports a failed fork and returns, or waits
  for the child.
\<close>

definition execute_command :: "string list \<Rightarrow> world \<Rightarrow> world" where
  "execute_command as w =
     (case sys_fork (command_child as) w of
        (None, w') \<Rightarrow> report Perror w'
      | (Some pid, w') \<Rightarrow> sys_waitpid pid w')"


text \<open>
  The first loop of \<^verbatim>\<open>execute_pipeline\<close> creates \<^verbatim>\<open>cmd_count - 1\<close> pipes; the list holds
  \<^verbatim>\<open>pipes[j][0]\<close> and \<^verbatim>\<open>pipes[j][1]\<close> of the pipes created so far. A failed \<^verbatim>\<open>pipe\<close> is
  \<^verbatim>\<open>perror("myshell: pipe"); return;\<close>, here \<open>None\<close>.
\<close>

fun make_pipes :: "nat \<Rightarrow> (int \<times> int) list \<Rightarrow> world \<Rightarrow> (int \<times> int) list option \<times> world" where
  "make_pipes 0 pipes w = (Some pipes, w)"
| "make_pipes (Suc n) pipes w =
     (case sys_pipe w of
        (None, w') \<Rightarrow> (None, report Perror w')
      | (Some p, w') \<Rightarrow> make_pipes n (pipes @ [p]) w')"

text \<open>
  \<^verbatim>\<open>for (j = 0; j < cmd_count - 1; j++) { close(pipes[j][0]); close(pipes[j][1]); }\<close>,
  on the \<^verbatim>\<open>cmd_count - 1\<close> pipes of the list.
\<close>

definition close_pipes :: "(int \<times> int) list \<Rightarrow> world \<Rightarrow> world" where
  "close_pipes pipes w = fold (\<lambda>p w'. sys_close (snd p) (sys_close (fst p) w')) pipes w"

text \<open>
  \<^verbatim>\<open>if (fd != -1) dup2(fd, target);\<close> of the child: the result of \<^verbatim>\<open>dup2\<close> is not looked at.
\<close>

definition apply_redirect :: "int \<Rightarrow> int \<Rightarrow> world \<Rightarrow> world" where
  "apply_redirect fd target w = (if fd \<noteq> -1 then snd (sys_dup2 fd target w) else w)"

text \<open>
  The child of \<^verbatim>\<open>execute_pipeline\<close> for the command of index \<open>i\<close>: the read end of the
  pipe before it becomes its standard input (if it is not the first command), the write
  end of the pipe after it its standard output (if it is not the last), where a failed
  \<^verbatim>\<open>dup2\<close> is \<^verbatim>\<open>perror\<close> and \<^verbatim>\<open>exit(EXIT_FAILURE)\<close>; then it closes every pipe descriptor,
  applies the three redirections of its command, and calls \<^verbatim>\<open>execvp\<close>.
\<close>

definition pipeline_child ::
    "nat \<Rightarrow> nat \<Rightarrow> (int \<times> int) list \<Rightarrow> command \<Rightarrow> world \<Rightarrow> child_end \<times> world" where
  "pipeline_child i cmd_count pipes cmd w =
     (case (if i > 0 then sys_dup2 (fst (pipes ! (i - 1))) 0 w else (0, w)) of (r1, w1) \<Rightarrow>
        if r1 < 0 then (ExitFailure, report Perror w1)
        else
          (case (if i < cmd_count - 1 then sys_dup2 (snd (pipes ! i)) 1 w1 else (0, w1)) of
             (r2, w2) \<Rightarrow>
               if r2 < 0 then (ExitFailure, report Perror w2)
               else
                 let w3 = close_pipes pipes w2;
                     w4 = apply_redirect (input_fd cmd) 0 w3;
                     w5 = apply_redirect (output_fd cmd) 1 w4;
                     w6 = apply_redirect (error_fd cmd) 2 w5
                 in (Exec (args cmd), w6)))"

text \<open>
  The second loop: one fork per command, in order. The first argument is
  \<^verbatim>\<open>commands[i..cmd_count)\<close>; \<open>pids\<close> is \<^verbatim>\<open>pids[0..i)\<close>. A failed \<^verbatim>\<open>fork\<close> is
  \<^verbatim>\<open>perror("myshell: fork"); return;\<close>, here \<open>None\<close>.
\<close>

fun spawn_all :: "command list \<Rightarrow> nat \<Rightarrow> nat \<Rightarrow> (int \<times> int) list \<Rightarrow> nat list \<Rightarrow> world
    \<Rightarrow> nat list option \<times> world" where
  "spawn_all [] i cmd_count pipes pids w = (Some pids, w)"
| "spawn_all (cmd # cmds) i cmd_count pipes pids w =
     (case sys_fork (pipeline_child i cmd_count pipes cmd) w of
        (None, w') \<Rightarrow> (None, report Perror w')
      | (Some pid, w') \<Rightarrow> spawn_all cmds (i + 1) cmd_count pipes (pids @ [pid]) w')"

text \<open>
  \<^verbatim>\<open>execute_pipeline(commands, cmd_count)\<close>: the pipes, the children, then the parent
  closes every pipe descriptor and waits for every child. Each of the two \<^verbatim>\<open>return\<close>
  statements in its two loop bodies leaves the function at once.
\<close>

definition execute_pipeline :: "command list \<Rightarrow> world \<Rightarrow> world" where
  "execute_pipeline commands w =
     (let cmd_count = length commands in
      case make_pipes (cmd_count - 1) [] w of
        (None, w1) \<Rightarrow> w1
      | (Some pipes, w1) \<Rightarrow>
          (case spawn_all commands 0 cmd_count pipes [] w1 of
             (None, w2) \<Rightarrow> w2
           | (Some pids, w2) \<Rightarrow> fold sys_waitpid pids (close_pipes pipes w2)))"

section \<open>The shell (myshell.c)\<close>

text \<open>
  \<^verbatim>\<open>handle_builtin\<close>: \<^verbatim>\<open>cd\<close> changes the directory or writes a message, \<^verbatim>\<open>exit\<close> ends the
  shell (\<^verbatim>\<open>exit(0)\<close> does not return; the model marks the shell as exited and handles
  the line). The result says whether the line was handled.
\<close>

definition handle_builtin :: "string list \<Rightarrow> world \<Rightarrow> bool \<times> world" where
  "handle_builtin as w =
     (case as of
        [] \<Rightarrow> (False, w)
      | a # rest \<Rightarrow>
          if a = ''cd'' then
            (case rest of
               [] \<Rightarrow> (True, report CdExpectedArgument w)
             | dir # _ \<Rightarrow>
                 if dir \<in> dirs w then (True, w\<lparr>cwd := dir\<rparr>)
                 else (True, report (CdFailed dir) w))
          else if a = ''exit'' then (True, w\<lparr>exited := True\<rparr>)
          else (False, w))"

text \<open>
  The cleanup of one \<^verbatim>\<open>Command\<close> in \<^verbatim>\<open>execute_line\<close>: each of its three descriptors is
  closed unless it is \<open>-1\<close>.
\<close>

definition close_command :: "command \<Rightarrow> world \<Rightarrow> world" where
  "close_command c w =
     (let w1 = (if input_fd c \<noteq> -1 then sys_close (input_fd c) w else w);
          w2 = (if output_fd c \<noteq> -1 then sys_close (output_fd c) w1 else w1)
      in if error_fd c \<noteq> -1 then sys_close (error_fd c) w2 else w2)"

text \<open>
  The loop of \<^verbatim>\<open>execute_line\<close> that builds one \<^verbatim>\<open>Command\<close> per segment, while \<^verbatim>\<open>valid\<close>.
  \<open>built\<close> is \<^verbatim>\<open>cmd_structs[0..i)\<close>. When \<^verbatim>\<open>parse_command\<close> returns \<^verbatim>\<open>NULL\<close> (its message
  is written), the commands built before are cleaned up and the loop ends: \<open>None\<close>.
\<close>

fun build_all :: "string list list \<Rightarrow> command list \<Rightarrow> world \<Rightarrow> command list option \<times> world" where
  "build_all [] built w = (Some built, w)"
| "build_all (seg # segs) built w =
     (case parse_command seg w of
        (Inl d, w') \<Rightarrow> (None, fold close_command built (report d w'))
      | (Inr cmd, w') \<Rightarrow> build_all segs (built @ [cmd]) w')"

text \<open>
  \<^verbatim>\<open>execute_line\<close> from the call of \<^verbatim>\<open>handle_builtin\<close> on, for a token array that is not
  empty. A line of one command goes to \<^verbatim>\<open>execute_command\<close> with all its tokens. A line of
  several commands is built first and run by \<^verbatim>\<open>execute_pipeline\<close> if every command was
  built; the cleanup loop that follows closes the descriptors of every command. After a
  failed build that loop reads entries of \<^verbatim>\<open>cmd_structs\<close> that were never written and
  frees the argument arrays of the others a second time: from there on the model says
  nothing but that this point was reached.
\<close>

definition execute_tokens :: "string list \<Rightarrow> world \<Rightarrow> world" where
  "execute_tokens tokens w =
     (case handle_builtin tokens w of
        (True, w1) \<Rightarrow> w1
      | (False, w1) \<Rightarrow>
          (case split_pipeline tokens of
             Inl e \<Rightarrow> report (SyntaxError e) w1
           | Inr commands \<Rightarrow>
               if length commands = 1 then execute_command tokens w1
               else
                 (case build_all commands [] w1 of
                    (None, w2) \<Rightarrow> w2\<lparr>trace := trace w2 @ [UndefinedBehaviour]\<rparr>
                  | (Some cmd_structs, w2) \<Rightarrow>
                      fold close_command cmd_structs (execute_pipeline cmd_structs w2))))"

text \<open>
  \<^verbatim>\<open>execute_line(input)\<close>: the line is cut at its first newline; an empty line and a line
  without tokens do nothing.
\<close>

definition execute_line :: "string \<Rightarrow> world \<Rightarrow> world" where
  "execute_line input w =
     (let line = takeWhile (\<lambda>c. c \<noteq> CHR 0x0A) input in
      if line = [] then w
      else
        let tokens = parse_input line in
        if tokens = [] then w else execute_tokens tokens w)"

text \<open>
  A state to run examples in: the three standard descriptors on the terminal, room for
  twelve descriptors, a file \<^verbatim>\<open>out.txt\<close> and a file \<^verbatim>\<open>in.txt\<close>, no file \<^verbatim>\<open>missing.txt\<close>.
\<close>

definition shell0 :: world where
  "shell0 =
     \<lparr>files = [''out.txt'' \<mapsto> ''old'', ''in.txt'' \<mapsto> ''data''],
      write_denied = {},
      fds = [0 \<mapsto> Terminal, 1 \<mapsto> Terminal, 2 \<mapsto> Terminal],
      fd_limit = 12,
      pipes_made = 0,
      forks_left = 100,
      children = [],
      trace = [],
      cwd = ''/'',
      dirs = {''/''},
      exited = False\<rparr>"


text \<open>A command without redirections, as \<^verbatim>\<open>parse_command\<close> builds it from one word.\<close>

definition simple_command :: "string \<Rightarrow> command" where
  "simple_command name = \<lparr>args = [name], input_fd = -1, output_fd = -1, error_fd = -1\<rparr>"

text \<open>
  What follows a token that was ended by whitespace, \<open>r\<close> being the input behind that
  whitespace: the token \<^verbatim>\<open>>>\<close> when \<open>r\<close> starts with these two characters, and the tokens
  of the rest.
\<close>

definition after_token :: "string \<Rightarrow> string list" where
  "after_token r =
     (case r of
        c1 # c2 # r' \<Rightarrow>
          if c1 = CHR ''>'' \<and> c2 = CHR ''>'' then ''>>'' # parse_input r' else parse_input r
      | _ \<Rightarrow> parse_input r)"


text \<open>
  A word as it is written on the line is a run of pieces. A plain piece is text that holds
  neither whitespace nor a quote character; a quoted piece is text between two equal
  quote characters that does not hold that quote character (it may hold whitespace and
  the other quote character). \<open>piece_source\<close> is what the line holds, \<open>piece_text\<close> what
  the piece gives to the token; \<open>stored\<close> is the token as the array gets it, nothing when
  its length is zero.
\<close>

datatype piece = Plain string | Quoted char string

fun piece_ok :: "piece \<Rightarrow> bool" where
  "piece_ok (Plain s) = list_all (\<lambda>c. \<not> isspace c \<and> \<not> is_quote c) s"
| "piece_ok (Quoted q s) = (is_quote q \<and> q \<notin> set s)"

fun piece_source :: "piece \<Rightarrow> string" where
  "piece_source (Plain s) = s"
| "piece_source (Quoted q s) = q # s @ [q]"

fun piece_text :: "piece \<Rightarrow> string" where
  "piece_text (Plain s) = s"
| "piece_text (Quoted q s) = s"

definition word_source :: "piece list \<Rightarrow> string" where
  "word_source ps = concat (map piece_source ps)"

definition word_text :: "piece list \<Rightarrow> string" where
  "word_text ps = concat (map piece_text ps)"

definition stored :: "string \<Rightarrow> string list" where
  "stored tok = (if tok = [] then [] else [tok])"


text \<open>
  A segment read the way the first loop of \<^verbatim>\<open>parse_command\<close> reads it: its arguments are
  the tokens that are neither one of the operators \<^verbatim>\<open><\<close>, \<^verbatim>\<open>>\<close>, \<^verbatim>\<open>2>\<close> nor the token
  after one; an operator is dangling when it is the last token, with no file name.
\<close>

fun arguments_of :: "string list \<Rightarrow> string list" where
  "arguments_of [] = []"
| "arguments_of [t] = (if is_redirect t then [] else [t])"
| "arguments_of (t # f # ts) =
     (if is_redirect t then arguments_of ts else t # arguments_of (f # ts))"

fun dangling :: "string list \<Rightarrow> bool" where
  "dangling [] = False"
| "dangling [t] = is_redirect t"
| "dangling (t # f # ts) = (if is_redirect t then dangling ts else dangling (f # ts))"

text \<open>
  A descriptor field of a command, seen from the state \<open>w\<close> in which a child of the
  pipeline is forked: it is \<open>-1\<close>, or it is open, none of the three standard descriptors
  and none of the pipe descriptors. \<^verbatim>\<open>parse_command\<close> opens the files of a command
  while 0, 1 and 2 are open and before any pipe is created.
\<close>

definition redirect_ok :: "world \<Rightarrow> (int \<times> int) list \<Rightarrow> int \<Rightarrow> bool" where
  "redirect_ok w pipes fd =
     (fd = -1 \<or> (fds w fd \<noteq> None \<and> fd \<notin> {0, 1, 2}
        \<and> fd \<notin> fst ` set pipes \<and> fd \<notin> snd ` set pipes))"

text \<open>
  Descriptor tables: \<open>t'\<close> has every open descriptor of \<open>t\<close>, referring to the same thing.
\<close>

definition extends :: "fdtable \<Rightarrow> fdtable \<Rightarrow> bool" where
  "extends t t' = (\<forall>fd obj. t fd = Some obj \<longrightarrow> t' fd = Some obj)"

text \<open>
  A command whose descriptor fields are \<open>-1\<close> or were opened after the table \<open>t0\<close> and
  refer, in \<open>t\<close>, to a file opened the way \<^verbatim>\<open>parse_command\<close> opens it; a pipe whose two
  descriptors were opened after \<open>t1\<close> and are its two ends in \<open>t\<close>.
\<close>

definition good_command :: "fdtable \<Rightarrow> fdtable \<Rightarrow> command \<Rightarrow> bool" where
  "good_command t0 t c =
     ((input_fd c = -1 \<or> (t0 (input_fd c) = None \<and> (\<exists>path. t (input_fd c) = Some (FileRead path))))
      \<and> (output_fd c = -1 \<or> (t0 (output_fd c) = None \<and> (\<exists>path. t (output_fd c) = Some (FileTrunc path))))
      \<and> (error_fd c = -1 \<or> (t0 (error_fd c) = None \<and> (\<exists>path. t (error_fd c) = Some (FileTrunc path)))))"

definition good_pipe :: "fdtable \<Rightarrow> fdtable \<Rightarrow> int \<times> int \<Rightarrow> bool" where
  "good_pipe t1 t p =
     (t1 (fst p) = None \<and> t1 (snd p) = None
      \<and> (\<exists>k. t (fst p) = Some (PipeRead k)) \<and> (\<exists>k. t (snd p) = Some (PipeWrite k)))"

text \<open>What \<^verbatim>\<open>open\<close> puts into the descriptor table.\<close>

fun obj_of :: "open_mode \<Rightarrow> string \<Rightarrow> fobj" where
  "obj_of O_RDONLY path = FileRead path"
| "obj_of O_TRUNC path = FileTrunc path"
| "obj_of O_APPEND path = FileAppend path"

text \<open>
  The child that \<^verbatim>\<open>execute_pipeline\<close>, started in \<open>w\<close>, forks for the command of index
  \<open>i\<close>; the segments of the line \<^verbatim>\<open>a | b < in.txt > out.txt | c\<close>, the commands built
  from them, and the state of the shell when they are built.
\<close>

definition forked_child :: "command list \<Rightarrow> world \<Rightarrow> nat \<Rightarrow> child" where
  "forked_child cmds w i = children (execute_pipeline cmds w) ! (length (children w) + i)"

definition sample_segments :: "string list list" where
  "sample_segments = [[''a''], [''b'', ''<'', ''in.txt'', ''>'', ''out.txt''], [''c'']]"

definition sample_commands :: "command list" where
  "sample_commands = [simple_command ''a'',
     \<lparr>args = [''b''], input_fd = 3, output_fd = 4, error_fd = -1\<rparr>, simple_command ''c'']"

definition built_world :: world where
  "built_world = snd (build_all sample_segments [] shell0)"


text \<open>
  Events of the trace: a message that is one of the four syntax errors, and a fork.
\<close>

fun is_syntax :: "event \<Rightarrow> bool" where
  "is_syntax (Report (SyntaxError e)) = True"
| "is_syntax ev = False"

fun is_fork :: "event \<Rightarrow> bool" where
  "is_fork (Forked pid) = True"
| "is_fork ev = False"

text \<open>\<open>w'\<close> continues the trace of \<open>w\<close> with events none of which is a syntax error.\<close>

definition quiet :: "world \<Rightarrow> world \<Rightarrow> bool" where
  "quiet w w' = (\<exists>evs. trace w' = trace w @ evs \<and> \<not> list_ex is_syntax evs)"

text \<open>
  The tokens \<^verbatim>\<open>execute_line\<close> gets from an input line, and the lines that
  \<^verbatim>\<open>split_pipeline\<close> accepts as one command (\<^verbatim>\<open>cmd_count == 1\<close>).
\<close>

definition tokens_of_line :: "string \<Rightarrow> string list" where
  "tokens_of_line input = parse_input (takeWhile (\<lambda>c. c \<noteq> CHR 0x0A) input)"

definition single_command :: "string list \<Rightarrow> bool" where
  "single_command tokens =
     (case split_pipeline tokens of Inr commands \<Rightarrow> length commands = 1 | Inl e \<Rightarrow> False)"


text \<open>The tokens in front of the segment being read: every finished segment with its pipe.\<close>

definition piped :: "string list list \<Rightarrow> string list" where
  "piped commands = concat (map (\<lambda>seg. seg @ [''|'']) commands)"


section \<open>Properties of the pipeline splitter\<close>

lemma join_pipeline_snoc: "join_pipeline (commands @ [seg]) = piped commands @ seg"
  by (induction commands rule: join_pipeline.induct) (auto simp: piped_def)

lemma split_loop_segments:
  assumes "split_loop ts seg commands = Inr out"
    and "''|'' \<notin> set seg"
    and "list_all (\<lambda>s. s \<noteq> [] \<and> ''|'' \<notin> set s) commands"
  shows "list_all (\<lambda>s. s \<noteq> [] \<and> ''|'' \<notin> set s) out
    \<and> join_pipeline out = piped commands @ seg @ ts"
  using assms
proof (induction ts seg commands rule: split_loop.induct)
  case (1 seg commands)
  then show ?case by (auto simp: join_pipeline_snoc split: if_splits)
next
  case (2 t ts seg commands)
  show ?case
  proof (cases "t = ''|''")
    case True
    with 2 show ?thesis by (auto simp: piped_def split: if_splits)
  next
    case False
    with 2 show ?thesis by (auto split: if_splits)
  qed
qed

lemma split_loop_count:
  "split_loop ts seg commands = Inr out \<Longrightarrow> length commands < max_cmds \<Longrightarrow> length out \<le> max_cmds"
proof (induction ts seg commands rule: split_loop.induct)
  case (1 seg commands)
  then show ?case by (auto split: if_splits)
next
  case (2 t ts seg commands)
  then show ?case by (cases "t = ''|''") (auto split: if_splits)
qed

lemma split_pipeline_at_most_max_cmds:
  "split_pipeline tokens = Inr out \<Longrightarrow> length out \<le> max_cmds"
  using split_loop_count [of tokens "[]" "[]" out] by (simp add: split_pipeline_def max_cmds_def)

lemma split_loop_double_pipe:
  "split_loop (xs @ ''|'' # ''|'' # ys) seg commands = Inl MissingCommand
   \<or> split_loop (xs @ ''|'' # ''|'' # ys) seg commands = Inl TooManyPipes"
proof (induction xs arbitrary: seg commands)
  case Nil
  show ?case by simp
next
  case (Cons x xs)
  show ?case
  proof (cases "x = ''|''")
    case True
    then show ?thesis using Cons.IH [of "[]" "commands @ [seg]"] by simp
  next
    case False
    then show ?thesis using Cons.IH [of "seg @ [x]" commands] by simp
  qed
qed

lemma split_loop_trailing_pipe:
  "split_loop xs seg commands = Inr out \<Longrightarrow>
   split_loop (xs @ [''|'']) seg commands = Inl MissingCommandAfterPipe"
proof (induction xs arbitrary: seg commands)
  case Nil
  then show ?case by (simp split: if_splits)
next
  case (Cons x xs)
  then show ?case by (cases "x = ''|''") (auto split: if_splits)
qed

lemma split_loop_trailing_pipe_fails:
  "isl (split_loop (xs @ [''|'']) seg commands)"
proof (induction xs arbitrary: seg commands)
  case Nil
  show ?case by simp
next
  case (Cons x xs)
  show ?case
  proof (cases "x = ''|''")
    case True
    then show ?thesis using Cons.IH [of "[]" "commands @ [seg]"] by simp
  next
    case False
    then show ?thesis using Cons.IH [of "seg @ [x]" commands] by simp
  qed
qed

lemma pipes_of_join_pipeline:
  "list_all (\<lambda>s. s \<noteq> [] \<and> ''|'' \<notin> set s) out \<Longrightarrow>
   length (filter (\<lambda>t. t = ''|'') (join_pipeline out)) = length out - 1"
  by (induction out rule: join_pipeline.induct) (auto simp: filter_empty_conv)

text \<open>A token sequence the splitter accepts has fewer than \<open>max_cmds\<close> pipe operators.\<close>

lemma split_pipeline_pipe_count:
  assumes "split_pipeline tokens = Inr out"
  shows "length (filter (\<lambda>t. t = ''|'') tokens) < max_cmds"
proof -
  from split_loop_segments [of tokens "[]" "[]" out] assms
  have segs: "list_all (\<lambda>s. s \<noteq> [] \<and> ''|'' \<notin> set s) out" and joined: "join_pipeline out = tokens"
    by (simp_all add: split_pipeline_def piped_def)
  have "length (filter (\<lambda>t. t = ''|'') tokens) = length out - 1"
    using pipes_of_join_pipeline [OF segs] joined by simp
  moreover have "length out \<le> max_cmds"
    using assms by (rule split_pipeline_at_most_max_cmds)
  ultimately show ?thesis by (simp add: max_cmds_def)
qed

text \<open>
  Claim C2. The claim: the splitter accepts up to and including 10 pipe operators (11
  commands) and answers TooManyPipes only beyond that. The code counts the commands
  copied so far and refuses when that count reaches \<open>max_cmds = 10\<close> at a pipe: the
  tenth pipe operator of a line is already refused, although the comment beside
  \<open>max_cmds\<close> and the eleven slots allocated for \<open>commands\<close> say ten pipes are supported.
  The line of eleven commands \<open>a | a | ... | a\<close>, with ten pipe operators and no empty
  segment, is rejected.
\<close>

theorem C2_ten_pipes_rejected:
  "length (filter (\<lambda>t. t = ''|'') (chain 11)) = 10
   \<and> split_pipeline (chain 11) = Inl TooManyPipes
   \<and> split_pipeline (chain 10) = Inr (replicate 10 [''a''])"
  by (simp add: split_pipeline_def chain_def max_cmds_def eval_nat_numeral)




text \<open>
  Claim C8. Whenever the splitter succeeds, every segment it returns is non-empty and
  holds no \<open>|\<close> token, and the segments joined in order, one \<open>|\<close> between two
  consecutive segments, are the input token sequence.
\<close>

theorem C8_split_segments:
  assumes "split_pipeline tokens = Inr out"
  shows "(\<forall>seg \<in> set out. seg \<noteq> [] \<and> ''|'' \<notin> set seg) \<and> join_pipeline out = tokens"
  using split_loop_segments [of tokens "[]" "[]" out] assms
  by (simp add: split_pipeline_def piped_def list_all_iff)

theorem C8_split_segments_witness:
  "split_pipeline [''ls'', ''-l'', ''|'', ''wc''] = Inr [[''ls'', ''-l''], [''wc'']]
   \<and> join_pipeline [[''ls'', ''-l''], [''wc'']] = [''ls'', ''-l'', ''|'', ''wc'']"
proof -
  have ok: "split_pipeline [''ls'', ''-l'', ''|'', ''wc''] = Inr [[''ls'', ''-l''], [''wc'']]"
    by (simp add: split_pipeline_def max_cmds_def)
  from C8_split_segments [OF ok] ok show ?thesis by simp
qed


section \<open>Properties of the tokenizer\<close>

lemma parse_loop_append:
  "parse_loop buf (pre @ tokens) = pre @ parse_loop buf tokens"
proof (induction buf tokens rule: parse_loop.induct)
  case (1 buf tokens)
  define buf1 where "buf1 = dropWhile isspace buf"
  define scanned where "scanned = scan_token buf1 False (CHR 0x00) []"
  define tokens1 where "tokens1 = (if fst scanned \<noteq> [] then tokens @ [fst scanned] else tokens)"
  define buf3 where "buf3 = dropWhile isspace (snd scanned)"
  show ?case
  proof (cases "buf1 = []")
    case True
    then show ?thesis
      by (simp add: parse_loop.simps [of buf] buf1_def)
  next
    case False
    define step where "step toks =
        (case buf3 of
           c1 # c2 # buf4 \<Rightarrow>
             if c1 = CHR ''>'' \<and> c2 = CHR ''>''
             then parse_loop buf4 (toks @ [''>>''])
             else parse_loop buf3 toks
         | _ \<Rightarrow> parse_loop buf3 toks)" for toks
    have unfold: "parse_loop buf toks =
        step (if fst scanned \<noteq> [] then toks @ [fst scanned] else toks)" for toks
      using False parse_loop.simps [of buf toks, unfolded Let_def, folded buf1_def,
          folded scanned_def, folded buf3_def]
      by (simp only: if_False step_def)
    have left: "parse_loop buf (pre @ tokens) = step (pre @ tokens1)"
      by (simp add: unfold [of "pre @ tokens"] tokens1_def)
    have right: "parse_loop buf tokens = step tokens1"
      by (simp add: unfold [of tokens] tokens1_def)
    have "step (pre @ tokens1) = pre @ step tokens1"
    proof (cases buf3)
      case Nil
      from "1.IH"(1) [OF buf1_def False scanned_def tokens1_def buf3_def Nil]
      show ?thesis by (simp add: step_def Nil)
    next
      case (Cons c1 rest)
      note c1 = this
      show ?thesis
      proof (cases rest)
        case Nil
        from "1.IH"(2) [OF buf1_def False scanned_def tokens1_def buf3_def c1 Nil]
        show ?thesis by (simp add: step_def c1 Nil)
      next
        case (Cons c2 buf4)
        note c2 = this
        show ?thesis
        proof (cases "c1 = CHR ''>'' \<and> c2 = CHR ''>''")
          case True
          from "1.IH"(3) [OF buf1_def False scanned_def tokens1_def buf3_def c1 c2 True]
          show ?thesis using True by (simp add: step_def c1 c2)
        next
          case no_merge: False
          from "1.IH"(4) [OF buf1_def False scanned_def tokens1_def buf3_def c1 c2 no_merge]
          show ?thesis by (simp only: step_def c1 c2 list.case if_not_P [OF no_merge])
        qed
      qed
    qed
    with left right show ?thesis by simp
  qed
qed

lemma isspace_not_quote: "isspace c \<Longrightarrow> \<not> is_quote c"
  by (auto simp: isspace_def is_quote_def)

lemma scan_token_quoted:
  "is_quote q \<Longrightarrow> q \<notin> set body \<Longrightarrow>
   scan_token (body @ q # rest) True q tok = scan_token rest False q (tok @ body)"
  by (induction body arbitrary: tok) auto

lemma scan_token_quote_char:
  "scan_token cs False q tok = scan_token cs False q' tok"
  by (induction cs arbitrary: tok) auto

lemma scan_token_plain_append:
  "list_all (\<lambda>c. \<not> isspace c \<and> \<not> is_quote c) s \<Longrightarrow>
   scan_token (s @ rest) False q tok = scan_token rest False q (tok @ s)"
  by (induction s arbitrary: tok) auto

lemma scan_token_piece:
  assumes "piece_ok p"
  shows "scan_token (piece_source p @ rest) False q tok = scan_token rest False q (tok @ piece_text p)"
proof (cases p)
  case (Plain s)
  then show ?thesis using assms by (simp add: scan_token_plain_append)
next
  case (Quoted q' s)
  then have "scan_token (piece_source p @ rest) False q tok = scan_token (s @ q' # rest) True q' tok"
    using assms by simp
  also have "\<dots> = scan_token rest False q' (tok @ s)"
    using assms Quoted by (simp add: scan_token_quoted)
  also have "\<dots> = scan_token rest False q (tok @ s)"
    by (rule scan_token_quote_char)
  finally show ?thesis using Quoted by simp
qed

lemma scan_token_word:
  "list_all piece_ok ps \<Longrightarrow>
   scan_token (word_source ps @ rest) False q tok = scan_token rest False q (tok @ word_text ps)"
proof (induction ps arbitrary: tok)
  case Nil
  show ?case by (simp add: word_source_def word_text_def)
next
  case (Cons p ps)
  have "scan_token (word_source (p # ps) @ rest) False q tok
      = scan_token (piece_source p @ (word_source ps @ rest)) False q tok"
    by (simp add: word_source_def)
  also have "\<dots> = scan_token (word_source ps @ rest) False q (tok @ piece_text p)"
    using Cons.prems by (simp add: scan_token_piece)
  also have "\<dots> = scan_token rest False q ((tok @ piece_text p) @ word_text ps)"
    using Cons.prems by (simp add: Cons.IH)
  finally show ?case by (simp add: word_text_def)
qed

lemma scan_token_open:
  "q \<notin> set body \<Longrightarrow> scan_token body True q tok = (tok @ body, [])"
  by (induction body arbitrary: tok) auto

lemma word_source_starts:
  "list_all piece_ok ps \<Longrightarrow> word_source ps \<noteq> [] \<Longrightarrow> \<not> isspace (hd (word_source ps))"
proof (induction ps)
  case Nil
  then show ?case by (simp add: word_source_def)
next
  case (Cons p ps)
  show ?case
  proof (cases "piece_source p = []")
    case True
    then show ?thesis using Cons by (simp add: word_source_def)
  next
    case False
    then have "hd (word_source (p # ps)) = hd (piece_source p)"
      by (simp add: word_source_def)
    moreover have "\<not> isspace (hd (piece_source p))"
      using Cons.prems(1) False by (cases p; cases "piece_source p") (auto simp: isspace_not_quote)
    ultimately show ?thesis by simp
  qed
qed

lemma word_text_empty:
  "word_source ps = [] \<Longrightarrow> word_text ps = []"
proof (induction ps)
  case Nil
  show ?case by (simp add: word_text_def)
next
  case (Cons p ps)
  then show ?case by (cases p) (auto simp: word_source_def word_text_def)
qed

lemma parse_loop_end: "parse_loop [] tokens = tokens"
  by (simp add: parse_loop.simps [of "[]"])

lemma parse_loop_stored: "parse_loop b (stored t) = stored t @ parse_loop b []"
  using parse_loop_append [of b "stored t" "[]"] by simp

lemma parse_loop_scanned:
  assumes "buf \<noteq> []" and "\<not> isspace (hd buf)"
    and "scan_token buf False (CHR 0x00) [] = (tok, rest)"
  shows "parse_loop buf [] = stored tok @ after_token (dropWhile isspace rest)"
proof -
  define r where "r = dropWhile isspace rest"
  have dw: "dropWhile isspace buf = buf" using assms(1,2) by (cases buf) auto
  have toks: "(if tok \<noteq> [] then [] @ [tok] else []) = stored tok"
    by (simp add: stored_def)
  have step: "parse_loop buf [] =
      (case r of
         c1 # c2 # buf4 \<Rightarrow>
           if c1 = CHR ''>'' \<and> c2 = CHR ''>''
           then parse_loop buf4 (stored tok @ [''>>''])
           else parse_loop r (stored tok)
       | _ \<Rightarrow> parse_loop r (stored tok))"
    using assms(1) parse_loop.simps [of buf "[]"]
    by (simp only: dw Let_def assms(3) fst_conv snd_conv toks r_def [symmetric] if_False)
  have merged: "parse_loop b (stored tok @ [''>>'']) = stored tok @ ''>>'' # parse_loop b []" for b
    using parse_loop_append [of b "stored tok @ [''>>'']" "[]"] by simp
  have plain: "parse_loop b (stored tok) = stored tok @ parse_loop b []" for b
    by (rule parse_loop_stored)
  have "parse_loop buf [] = stored tok @ after_token r"
    unfolding step after_token_def parse_input_def
    by (simp add: merged plain split: list.splits)
  then show ?thesis by (simp add: r_def)
qed

lemma parse_input_leading_space:
  "list_all isspace ws \<Longrightarrow> parse_input (ws @ line) = parse_input line"
proof -
  assume "list_all isspace ws"
  then have "dropWhile isspace (ws @ line) = dropWhile isspace line"
    by (induction ws) auto
  then show ?thesis
    unfolding parse_input_def
    by (simp add: parse_loop.simps [of "ws @ line"] parse_loop.simps [of line])
qed

lemma parse_input_pieces:
  assumes "list_all piece_ok ps"
  shows "parse_input (word_source ps) = stored (word_text ps)"
proof (cases "word_source ps = []")
  case True
  then show ?thesis
    by (simp add: parse_input_def parse_loop_end word_text_empty stored_def)
next
  case False
  have "scan_token (word_source ps) False (CHR 0x00) [] = (word_text ps, [])"
    using scan_token_word [OF assms, of "[]" "CHR 0x00" "[]"] by simp
  from parse_loop_scanned [OF False word_source_starts [OF assms False] this]
  show ?thesis
    by (simp add: parse_input_def after_token_def parse_loop_end)
qed

lemma parse_input_pieces_space:
  assumes "list_all piece_ok ps" and "word_source ps \<noteq> []" and "isspace c"
  shows "parse_input (word_source ps @ c # rest)
    = stored (word_text ps) @ after_token (dropWhile isspace rest)"
proof -
  have ne: "word_source ps @ c # rest \<noteq> []" by simp
  have hd: "\<not> isspace (hd (word_source ps @ c # rest))"
    using word_source_starts [OF assms(1,2)] assms(2) by simp
  have "scan_token (word_source ps @ c # rest) False (CHR 0x00) [] = (word_text ps, c # rest)"
    using scan_token_word [OF assms(1), of "c # rest" "CHR 0x00" "[]"] assms(3)
    by (simp add: isspace_not_quote)
  from parse_loop_scanned [OF ne hd this]
  show ?thesis using assms(3) by (simp add: parse_input_def)
qed

lemma parse_input_pieces_open:
  assumes "list_all piece_ok ps" and "is_quote q" and "q \<notin> set body"
  shows "parse_input (word_source ps @ q # body) = stored (word_text ps @ body)"
proof -
  have ne: "word_source ps @ q # body \<noteq> []" by simp
  have "\<not> isspace q" using assms(2) isspace_not_quote by blast
  then have hd: "\<not> isspace (hd (word_source ps @ q # body))"
    using word_source_starts [OF assms(1)] by (cases "word_source ps = []") simp_all
  have "scan_token (word_source ps @ q # body) False (CHR 0x00) []
      = scan_token (q # body) False (CHR 0x00) (word_text ps)"
    using scan_token_word [OF assms(1), of "q # body" "CHR 0x00" "[]"] by simp
  also have "\<dots> = scan_token body True q (word_text ps)"
    using assms(2) by simp
  also have "\<dots> = (word_text ps @ body, [])"
    using assms(3) by (rule scan_token_open)
  finally have "scan_token (word_source ps @ q # body) False (CHR 0x00) []
      = (word_text ps @ body, [])" .
  from parse_loop_scanned [OF ne hd this]
  show ?thesis by (simp add: parse_input_def after_token_def parse_loop_end)
qed

lemma line_shape:
  "\<exists>ps. list_all piece_ok ps
     \<and> (s = word_source ps
        \<or> (\<exists>c rest. isspace c \<and> s = word_source ps @ c # rest)
        \<or> (\<exists>q body. is_quote q \<and> q \<notin> set body \<and> s = word_source ps @ q # body))"
proof (induction s rule: length_induct)
  case (1 s)
  show ?case
  proof (cases s)
    case Nil
    have "list_all piece_ok []" "s = word_source []" using Nil by (simp_all add: word_source_def)
    then show ?thesis by blast
  next
    case (Cons x xs)
    show ?thesis
    proof (cases "isspace x")
      case True
      have "list_all piece_ok []" "s = word_source [] @ x # xs"
        using Cons by (simp_all add: word_source_def)
      then show ?thesis using True by blast
    next
      case False
      note not_space = this
      show ?thesis
      proof (cases "is_quote x")
        case False
        have "length xs < length s" using Cons by simp
        then obtain ps where ps: "list_all piece_ok ps"
          "xs = word_source ps
           \<or> (\<exists>c rest. isspace c \<and> xs = word_source ps @ c # rest)
           \<or> (\<exists>q body. is_quote q \<and> q \<notin> set body \<and> xs = word_source ps @ q # body)"
          using 1 by blast
        have ok: "list_all piece_ok (Plain [x] # ps)"
          using ps(1) not_space False by simp
        have src: "word_source (Plain [x] # ps) = x # word_source ps"
          by (simp add: word_source_def)
        from ps(2) have "s = word_source (Plain [x] # ps)
           \<or> (\<exists>c rest. isspace c \<and> s = word_source (Plain [x] # ps) @ c # rest)
           \<or> (\<exists>q body. is_quote q \<and> q \<notin> set body \<and> s = word_source (Plain [x] # ps) @ q # body)"
          unfolding src Cons by auto
        with ok show ?thesis by blast
      next
        case True
        note quote = this
        show ?thesis
        proof (cases "x \<in> set xs")
          case False
          have "list_all piece_ok []" "s = word_source [] @ x # xs"
            using Cons by (simp_all add: word_source_def)
          then show ?thesis using quote False by blast
        next
          case True
          then obtain body tail where xs: "xs = body @ x # tail" "x \<notin> set body"
            by (auto dest: split_list_first)
          have "length tail < length s" using Cons xs by simp
          then obtain ps where ps: "list_all piece_ok ps"
            "tail = word_source ps
             \<or> (\<exists>c rest. isspace c \<and> tail = word_source ps @ c # rest)
             \<or> (\<exists>q body. is_quote q \<and> q \<notin> set body \<and> tail = word_source ps @ q # body)"
            using 1 by blast
          have ok: "list_all piece_ok (Quoted x body # ps)"
            using ps(1) quote xs(2) by simp
          have src: "word_source (Quoted x body # ps) = x # body @ x # word_source ps"
            by (simp add: word_source_def)
          from ps(2) have "s = word_source (Quoted x body # ps)
             \<or> (\<exists>c rest. isspace c \<and> s = word_source (Quoted x body # ps) @ c # rest)
             \<or> (\<exists>q b. is_quote q \<and> q \<notin> set b \<and> s = word_source (Quoted x body # ps) @ q # b)"
            unfolding src Cons xs(1) by auto
          with ok show ?thesis by blast
        qed
      qed
    qed
  qed
qed

lemma every_line_has_shape:
  "\<exists>ws ps. list_all isspace ws \<and> list_all piece_ok ps
     \<and> (line = ws @ word_source ps
        \<or> (\<exists>c rest. isspace c \<and> word_source ps \<noteq> [] \<and> line = ws @ word_source ps @ c # rest)
        \<or> (\<exists>q body. is_quote q \<and> q \<notin> set body \<and> line = ws @ word_source ps @ q # body))"
proof -
  define ws where "ws = takeWhile isspace line"
  define s where "s = dropWhile isspace line"
  have ws: "list_all isspace ws"
    by (simp add: ws_def list_all_iff) (meson set_takeWhileD)
  have line: "line = ws @ s" by (simp add: ws_def s_def)
  have start: "s \<noteq> [] \<Longrightarrow> \<not> isspace (hd s)"
    unfolding s_def by (rule hd_dropWhile)
  obtain ps where ps: "list_all piece_ok ps"
    "s = word_source ps
     \<or> (\<exists>c rest. isspace c \<and> s = word_source ps @ c # rest)
     \<or> (\<exists>q body. is_quote q \<and> q \<notin> set body \<and> s = word_source ps @ q # body)"
    using line_shape [of s] by blast
  have "word_source ps \<noteq> []" if "isspace c" and "s = word_source ps @ c # rest" for c rest
    using that start by (cases "word_source ps") auto
  with ps(2) have "line = ws @ word_source ps
        \<or> (\<exists>c rest. isspace c \<and> word_source ps \<noteq> [] \<and> line = ws @ word_source ps @ c # rest)
        \<or> (\<exists>q body. is_quote q \<and> q \<notin> set body \<and> line = ws @ word_source ps @ q # body)"
    unfolding line by blast
  with ws ps(1) show ?thesis by blast
qed



section \<open>Runs that end early\<close>

text \<open>
  Claim C1. The claim: when building a command fails partway, every descriptor opened
  during that call is closed before the error is returned. \<^verbatim>\<open>parse_command\<close> frees the
  command and returns \<^verbatim>\<open>NULL\<close> without closing anything: for the segment
  \<^verbatim>\<open>cat > out.txt < missing.txt\<close> the file \<^verbatim>\<open>out.txt\<close> is opened (and truncated) on
  descriptor 3, the open of \<^verbatim>\<open>missing.txt\<close> fails, and descriptor 3 is still open when
  the error is returned, with no command left that holds it.
\<close>

theorem C1_failed_build_leaves_descriptor_open:
  "fds shell0 3 = None
   \<and> fst (parse_command [''cat'', ''>'', ''out.txt'', ''<'', ''missing.txt''] shell0)
       = Inl (NoSuchFile ''missing.txt'')
   \<and> fds (snd (parse_command [''cat'', ''>'', ''out.txt'', ''<'', ''missing.txt''] shell0)) 3
       = Some (FileTrunc ''out.txt'')"
  by (simp add: parse_command_def shell0_def sys_open_def is_redirect_def eval_nat_numeral)

text \<open>
  Claim C3. The claim: the command builder takes the token after \<^verbatim>\<open>>>\<close> as a file name,
  opens it for appending as the output of the command, and keeps both tokens out of the
  arguments. \<^verbatim>\<open>parse_command\<close> knows \<^verbatim>\<open><\<close>, \<^verbatim>\<open>>\<close> and \<^verbatim>\<open>2>\<close> only: in a pipeline
  \<^verbatim>\<open>>>\<close> and the file name are two more arguments of the program and no file is opened.
  \<^verbatim>\<open>setup_redirection\<close>, on the path of a single command, does what the claim says.
\<close>

theorem C3_builder_passes_append_on:
  "parse_command [''echo'', ''hi'', ''>>'', ''log.txt''] shell0
     = (Inr \<lparr>args = [''echo'', ''hi'', ''>>'', ''log.txt''],
             input_fd = -1, output_fd = -1, error_fd = -1\<rparr>, shell0)
   \<and> map ended (children (execute_line ''echo hi >> log.txt | cat'' shell0))
     = [Exec [''echo'', ''hi'', ''>>'', ''log.txt''], Exec [''cat'']]
   \<and> files (execute_line ''echo hi >> log.txt | cat'' shell0) ''log.txt'' = None
   \<and> map ended (children (execute_line ''echo hi >> log.txt'' shell0)) = [Exec [''echo'', ''hi'']]
   \<and> map (\<lambda>c. child_fds c 1) (children (execute_line ''echo hi >> log.txt'' shell0))
     = [Some (FileAppend ''log.txt'')]
   \<and> files (execute_line ''echo hi >> log.txt'' shell0) ''log.txt'' = Some []"
proof -
  have "parse_command [''echo'', ''hi'', ''>>'', ''log.txt''] shell0
     = (Inr \<lparr>args = [''echo'', ''hi'', ''>>'', ''log.txt''],
             input_fd = -1, output_fd = -1, error_fd = -1\<rparr>, shell0)"
    by (simp add: parse_command_def is_redirect_def)
  moreover have "map ended (children (execute_line ''echo hi >> log.txt | cat'' shell0))
     = [Exec [''echo'', ''hi'', ''>>'', ''log.txt''], Exec [''cat'']]"
    by code_simp
  moreover have "files (execute_line ''echo hi >> log.txt | cat'' shell0) ''log.txt'' = None"
    by code_simp
  moreover have "map ended (children (execute_line ''echo hi >> log.txt'' shell0))
     = [Exec [''echo'', ''hi'']]"
    by code_simp
  moreover have "map (\<lambda>c. child_fds c 1) (children (execute_line ''echo hi >> log.txt'' shell0))
     = [Some (FileAppend ''log.txt'')]"
    by code_simp
  moreover have "files (execute_line ''echo hi >> log.txt'' shell0) ''log.txt'' = Some []"
    by code_simp
  ultimately show ?thesis by blast
qed

text \<open>
  On a line of two or more commands a segment without arguments is refused by
  \<^verbatim>\<open>parse_command\<close> before any file is opened: the state is the one it started in.
\<close>

lemma count_args_eq:
  "count_args ts has_command arg_count =
     (if dangling ts then Inl MissingRedirectTarget
      else Inr (has_command \<or> arguments_of ts \<noteq> [], arg_count + length (arguments_of ts)))"
  by (induction ts has_command arg_count rule: count_args.induct) auto

lemma parse_command_dangling:
  "dangling seg \<Longrightarrow> parse_command seg w = (Inl (SyntaxError MissingRedirectTarget), w)"
  by (simp add: parse_command_def count_args_eq)

lemma parse_command_no_arguments:
  "\<not> dangling seg \<Longrightarrow> arguments_of seg = [] \<Longrightarrow>
   parse_command seg w = (Inl (SyntaxError MissingCommand), w)"
  by (simp add: parse_command_def count_args_eq)

text \<open>
  Claim C4. The claim: a segment without arguments, such as \<^verbatim>\<open>> out.txt\<close>, fails with
  MissingCommand and no redirection target is created or truncated. On the line
  \<^verbatim>\<open>> out.txt\<close>, a line of one command, the shell forks, the child truncates
  \<^verbatim>\<open>out.txt\<close> (and creates \<^verbatim>\<open>new.txt\<close> on the line \<^verbatim>\<open>> new.txt\<close>) and calls \<^verbatim>\<open>execvp\<close>
  with no program name; no message is written.
\<close>

theorem C4_lone_redirection_truncates:
  "parse_input ''> out.txt'' = [''>'', ''out.txt'']
   \<and> files shell0 ''out.txt'' = Some ''old''
   \<and> files (execute_line ''> out.txt'' shell0) ''out.txt'' = Some []
   \<and> trace (execute_line ''> out.txt'' shell0) = [Forked 0, Waited 0]
   \<and> map ended (children (execute_line ''> out.txt'' shell0)) = [Exec []]
   \<and> files shell0 ''new.txt'' = None
   \<and> files (execute_line ''> new.txt'' shell0) ''new.txt'' = Some []"
proof -
  have "parse_input ''> out.txt'' = [''>'', ''out.txt'']" by code_simp
  moreover have "files shell0 ''out.txt'' = Some ''old''" by (simp add: shell0_def)
  moreover have "files (execute_line ''> out.txt'' shell0) ''out.txt'' = Some []" by code_simp
  moreover have "trace (execute_line ''> out.txt'' shell0) = [Forked 0, Waited 0]" by code_simp
  moreover have "map ended (children (execute_line ''> out.txt'' shell0)) = [Exec []]" by code_simp
  moreover have "files shell0 ''new.txt'' = None" by (simp add: shell0_def)
  moreover have "files (execute_line ''> new.txt'' shell0) ''new.txt'' = Some []" by code_simp
  ultimately show ?thesis by blast
qed

text \<open>
  Claim C6. The claim: when a pipe cannot be created, the pipes created before are
  closed, and when a fork fails, the children forked before are still waited for. Both
  failures are a bare \<^verbatim>\<open>return\<close> in \<^verbatim>\<open>execute_pipeline\<close>. With room for eight
  descriptors the third pipe of \<^verbatim>\<open>a | b | c | d\<close> cannot be created, and the four
  descriptors of the first two pipes stay open in the shell. With one fork left, the
  second fork of \<^verbatim>\<open>a | b | c\<close> fails: the first child is never waited for and the pipes
  stay open.
\<close>

theorem C6_early_return_skips_cleanup:
  "trace (execute_pipeline (map simple_command [''a'', ''b'', ''c'', ''d''])
       (shell0\<lparr>fd_limit := 8\<rparr>)) = [Report Perror]
   \<and> map (fds (execute_pipeline (map simple_command [''a'', ''b'', ''c'', ''d''])
       (shell0\<lparr>fd_limit := 8\<rparr>))) [3, 4, 5, 6]
     = [Some (PipeRead 0), Some (PipeWrite 0), Some (PipeRead 1), Some (PipeWrite 1)]
   \<and> trace (execute_pipeline (map simple_command [''a'', ''b'', ''c''])
       (shell0\<lparr>forks_left := 1\<rparr>)) = [Forked 0, Report Perror]
   \<and> map ended (children (execute_pipeline (map simple_command [''a'', ''b'', ''c''])
       (shell0\<lparr>forks_left := 1\<rparr>))) = [Exec [''a'']]
   \<and> map (fds (execute_pipeline (map simple_command [''a'', ''b'', ''c''])
       (shell0\<lparr>forks_left := 1\<rparr>))) [3, 4, 5, 6]
     = [Some (PipeRead 0), Some (PipeWrite 0), Some (PipeRead 1), Some (PipeWrite 1)]
   \<and> trace (execute_line ''a | b | c'' (shell0\<lparr>forks_left := 1\<rparr>)) = [Forked 0, Report Perror]"
proof -
  have "trace (execute_pipeline (map simple_command [''a'', ''b'', ''c'', ''d''])
       (shell0\<lparr>fd_limit := 8\<rparr>)) = [Report Perror]"
    by code_simp
  moreover have "map (fds (execute_pipeline (map simple_command [''a'', ''b'', ''c'', ''d''])
       (shell0\<lparr>fd_limit := 8\<rparr>))) [3, 4, 5, 6]
     = [Some (PipeRead 0), Some (PipeWrite 0), Some (PipeRead 1), Some (PipeWrite 1)]"
    by code_simp
  moreover have "trace (execute_pipeline (map simple_command [''a'', ''b'', ''c''])
       (shell0\<lparr>forks_left := 1\<rparr>)) = [Forked 0, Report Perror]"
    by code_simp
  moreover have "map ended (children (execute_pipeline (map simple_command [''a'', ''b'', ''c''])
       (shell0\<lparr>forks_left := 1\<rparr>))) = [Exec [''a'']]"
    by code_simp
  moreover have "map (fds (execute_pipeline (map simple_command [''a'', ''b'', ''c''])
       (shell0\<lparr>forks_left := 1\<rparr>))) [3, 4, 5, 6]
     = [Some (PipeRead 0), Some (PipeWrite 0), Some (PipeRead 1), Some (PipeWrite 1)]"
    by code_simp
  moreover have "trace (execute_line ''a | b | c'' (shell0\<lparr>forks_left := 1\<rparr>))
     = [Forked 0, Report Perror]"
    by code_simp
  ultimately show ?thesis by blast
qed


section \<open>The children of a pipeline\<close>

lemma fds_close_pipes:
  "fd \<notin> fst ` set pipes \<Longrightarrow> fd \<notin> snd ` set pipes \<Longrightarrow>
   fds (close_pipes pipes w) fd = fds w fd"
  unfolding close_pipes_def
  by (induction pipes arbitrary: w) (auto simp: sys_close_def)

lemma sys_dup2_open:
  "fds w oldfd \<noteq> None \<Longrightarrow>
   sys_dup2 oldfd newfd w = (newfd, w\<lparr>fds := (fds w)(newfd := fds w oldfd)\<rparr>)"
  by (auto simp: sys_dup2_def)

lemma fds_apply_redirect:
  "fd \<noteq> -1 \<Longrightarrow> fds w fd \<noteq> None \<Longrightarrow>
   fds (apply_redirect fd target w) = (fds w)(target := fds w fd)"
  by (auto simp: apply_redirect_def sys_dup2_def)

lemma fds_apply_redirect_none:
  "fds (apply_redirect (-1) target w) = fds w"
  by (simp add: apply_redirect_def)

lemma pipeline_child_streams:
  assumes i: "i < cmd_count" and len: "length pipes = cmd_count - 1"
    and pipes_open: "\<forall>p \<in> set pipes. fds w (fst p) \<noteq> None \<and> fds w (snd p) \<noteq> None"
    and pipes_std: "\<forall>p \<in> set pipes. fst p \<notin> {0, 1, 2} \<and> snd p \<notin> {0, 1, 2}"
    and inp: "redirect_ok w pipes (input_fd cmd)"
    and outp: "redirect_ok w pipes (output_fd cmd)"
    and errp: "redirect_ok w pipes (error_fd cmd)"
  shows "fst (pipeline_child i cmd_count pipes cmd w) = Exec (args cmd)
    \<and> fds (snd (pipeline_child i cmd_count pipes cmd w)) 0 =
        (if input_fd cmd \<noteq> -1 then fds w (input_fd cmd)
         else if i > 0 then fds w (fst (pipes ! (i - 1))) else fds w 0)
    \<and> fds (snd (pipeline_child i cmd_count pipes cmd w)) 1 =
        (if output_fd cmd \<noteq> -1 then fds w (output_fd cmd)
         else if i < cmd_count - 1 then fds w (snd (pipes ! i)) else fds w 1)
    \<and> fds (snd (pipeline_child i cmd_count pipes cmd w)) 2 =
        (if error_fd cmd \<noteq> -1 then fds w (error_fd cmd) else fds w 2)"
proof -
  define w1 where
    "w1 = (if i > 0 then w\<lparr>fds := (fds w)(0 := fds w (fst (pipes ! (i - 1))))\<rparr> else w)"
  define w2 where
    "w2 = (if i < cmd_count - 1 then w1\<lparr>fds := (fds w1)(1 := fds w1 (snd (pipes ! i)))\<rparr>
           else w1)"
  define w3 where "w3 = close_pipes pipes w2"
  define w4 where "w4 = apply_redirect (input_fd cmd) 0 w3"
  define w5 where "w5 = apply_redirect (output_fd cmd) 1 w4"
  define w6 where "w6 = apply_redirect (error_fd cmd) 2 w5"
  have prev: "fds w (fst (pipes ! (i - 1))) \<noteq> None" if "i > 0"
    using that i len pipes_open by (simp add: nth_mem)
  have nxt: "fds w (snd (pipes ! i)) \<noteq> None" if "i < cmd_count - 1"
    using that len pipes_open by (simp add: nth_mem)
  have nxt1: "fds w1 (snd (pipes ! i)) \<noteq> None" if "i < cmd_count - 1"
    using nxt [OF that] prev by (auto simp: w1_def)
  have d1: "(if i > 0 then sys_dup2 (fst (pipes ! (i - 1))) 0 w else (0, w)) = (0, w1)"
    using prev by (simp add: w1_def sys_dup2_open)
  have d2: "(if i < cmd_count - 1 then sys_dup2 (snd (pipes ! i)) 1 w1 else (0, w1))
      = ((if i < cmd_count - 1 then 1 else 0), w2)"
    using nxt1 by (simp add: w2_def sys_dup2_open)
  have run: "pipeline_child i cmd_count pipes cmd w = (Exec (args cmd), w6)"
    unfolding pipeline_child_def d1 prod.case d2
    by (simp add: Let_def w3_def w4_def w5_def w6_def)
  have keep2: "fds w2 fd = fds w fd" if "fd \<noteq> 0" "fd \<noteq> 1" for fd
    using that by (simp add: w2_def w1_def)
  have keep3: "fds w3 fd = fds w fd"
    if "fd \<noteq> 0" "fd \<noteq> 1" "fd \<notin> fst ` set pipes" "fd \<notin> snd ` set pipes" for fd
    using that by (simp add: w3_def fds_close_pipes keep2)
  have std3: "fds w3 fd = fds w2 fd" if "fd \<notin> fst ` set pipes" "fd \<notin> snd ` set pipes" for fd
    using that by (simp add: w3_def fds_close_pipes)
  have in3: "fds w3 (input_fd cmd) = fds w (input_fd cmd)" "fds w3 (input_fd cmd) \<noteq> None"
    if "input_fd cmd \<noteq> -1"
    using that inp keep3 [of "input_fd cmd"] by (auto simp: redirect_ok_def)
  have f4: "fds w4 =
      (if input_fd cmd \<noteq> -1 then (fds w3)(0 := fds w (input_fd cmd)) else fds w3)"
    using in3 by (auto simp: w4_def fds_apply_redirect fds_apply_redirect_none)
  have out4: "fds w4 (output_fd cmd) = fds w (output_fd cmd)" "fds w4 (output_fd cmd) \<noteq> None"
    if "output_fd cmd \<noteq> -1"
    using that outp keep3 [of "output_fd cmd"] by (auto simp: redirect_ok_def f4)
  have f5: "fds w5 =
      (if output_fd cmd \<noteq> -1 then (fds w4)(1 := fds w (output_fd cmd)) else fds w4)"
    using out4 by (auto simp: w5_def fds_apply_redirect fds_apply_redirect_none)
  have err5: "fds w5 (error_fd cmd) = fds w (error_fd cmd)" "fds w5 (error_fd cmd) \<noteq> None"
    if "error_fd cmd \<noteq> -1"
    using that errp keep3 [of "error_fd cmd"] by (auto simp: redirect_ok_def f4 f5)
  have f6: "fds w6 =
      (if error_fd cmd \<noteq> -1 then (fds w5)(2 := fds w (error_fd cmd)) else fds w5)"
    using err5 by (auto simp: w6_def fds_apply_redirect fds_apply_redirect_none)
  have no_std: "0 \<notin> fst ` set pipes" "0 \<notin> snd ` set pipes" "1 \<notin> fst ` set pipes"
      "1 \<notin> snd ` set pipes" "2 \<notin> fst ` set pipes" "2 \<notin> snd ` set pipes"
    using pipes_std by auto
  have nxt_std: "snd (pipes ! i) \<noteq> 0" if "i < cmd_count - 1"
    using that len pipes_std nth_mem [of i pipes] by auto
  have s0: "fds w3 0 = (if i > 0 then fds w (fst (pipes ! (i - 1))) else fds w 0)"
    using std3 [of 0] no_std by (simp add: w2_def w1_def)
  have s1: "fds w3 1 = (if i < cmd_count - 1 then fds w (snd (pipes ! i)) else fds w 1)"
    using std3 [of 1] no_std nxt_std by (simp add: w2_def w1_def)
  have s2: "fds w3 2 = fds w 2"
    using std3 [of 2] no_std by (simp add: w2_def w1_def)
  show ?thesis
    by (simp add: run f6 f5 f4 s0 s1 s2)
qed

lemma extends_refl: "extends t t"
  by (simp add: extends_def)

lemma extends_trans: "extends t t' \<Longrightarrow> extends t' t'' \<Longrightarrow> extends t t''"
  by (simp add: extends_def)

lemma extends_closed: "extends t t' \<Longrightarrow> t' fd = None \<Longrightarrow> t fd = None"
  by (cases "t fd") (auto simp: extends_def)

lemma good_command_extends: "good_command t0 t c \<Longrightarrow> extends t t' \<Longrightarrow> good_command t0 t' c"
  unfolding good_command_def extends_def by blast

lemma good_pipe_extends: "good_pipe t1 t p \<Longrightarrow> extends t t' \<Longrightarrow> good_pipe t1 t' p"
  unfolding good_pipe_def extends_def by blast

lemma free_fd_closed: "free_fd t n k = Some fd \<Longrightarrow> t fd = None \<and> n \<le> fd"
proof (induction k arbitrary: n)
  case 0
  then show ?case by simp
next
  case (Suc k)
  show ?case
  proof (cases "t n = None")
    case True
    then show ?thesis using Suc.prems by simp
  next
    case False
    then have "free_fd t (n + 1) k = Some fd" using Suc.prems by auto
    from Suc.IH [OF this] show ?thesis by simp
  qed
qed

lemma sys_open_fds:
  assumes "sys_open path mode w = (fd, w')"
  shows "extends (fds w) (fds w')
    \<and> (\<not> fd < 0 \<longrightarrow> fds w fd = None \<and> fds w' fd = Some (obj_of mode path))"
proof (cases "free_fd (fds w) 0 (fd_limit w)")
  case None
  then show ?thesis using assms by (simp add: sys_open_def extends_refl)
next
  case (Some n)
  then have n: "fds w n = None" "0 \<le> n" using free_fd_closed by blast+
  then have "extends (fds w) ((fds w)(n \<mapsto> obj))" for obj
    by (auto simp: extends_def)
  then show ?thesis
    using assms Some n
    by (cases mode) (auto simp: sys_open_def extends_refl split: if_splits)
qed

lemma build_loop_good:
  assumes "build_loop ts c w = (Inr c', w')" and "good_command t0 (fds w) c" and "extends t0 (fds w)"
  shows "good_command t0 (fds w') c' \<and> extends (fds w) (fds w')"
  using assms
proof (induction ts c w rule: build_loop.induct)
  case (1 cmd w)
  then show ?case by (simp add: extends_refl)
next
  case (2 t cmd w)
  then show ?case by (auto simp: extends_refl good_command_def split: if_splits)
next
  case (3 t f ts cmd w)
  have opened: "extends (fds w) (fds w1) \<and> extends t0 (fds w1) \<and> t0 fd = None
      \<and> fds w1 fd = Some (obj_of mode f) \<and> good_command t0 (fds w1) cmd"
    if o: "sys_open f mode w = (fd, w1)" and ok: "\<not> fd < 0" for mode fd w1
  proof -
    from sys_open_fds [OF o] ok have e: "extends (fds w) (fds w1)"
      and n: "fds w fd = None" and s: "fds w1 fd = Some (obj_of mode f)" by auto
    have "t0 fd = None" using extends_closed [OF "3.prems"(3) n] .
    moreover have "extends t0 (fds w1)" using "3.prems"(3) e by (rule extends_trans)
    moreover have "good_command t0 (fds w1) cmd" using "3.prems"(2) e by (rule good_command_extends)
    ultimately show ?thesis using e s by simp
  qed
  consider (inp) "t = ''<''" | (out) "t \<noteq> ''<''" "t = ''>''"
    | (err) "t \<noteq> ''<''" "t \<noteq> ''>''" "t = ''2>''"
    | (arg) "t \<noteq> ''<''" "t \<noteq> ''>''" "t \<noteq> ''2>''"
    by blast
  then show ?case
  proof cases
    case inp
    obtain fd w1 where o: "sys_open f O_RDONLY w = (fd, w1)" by fastforce
    from "3.prems"(1) inp o have ok: "\<not> fd < 0"
      and run: "build_loop ts (cmd\<lparr>input_fd := fd\<rparr>) w1 = (Inr c', w')"
      by (auto split: if_splits)
    note op = opened [OF o ok]
    have g: "good_command t0 (fds w1) (cmd\<lparr>input_fd := fd\<rparr>)"
      using op by (auto simp: good_command_def)
    from "3.IH"(1) [OF inp o [symmetric] ok run g] op show ?thesis
      by (auto intro: extends_trans)
  next
    case out
    obtain fd w1 where o: "sys_open f O_TRUNC w = (fd, w1)" by fastforce
    from "3.prems"(1) out o have ok: "\<not> fd < 0"
      and run: "build_loop ts (cmd\<lparr>output_fd := fd\<rparr>) w1 = (Inr c', w')"
      by (auto split: if_splits)
    note op = opened [OF o ok]
    have g: "good_command t0 (fds w1) (cmd\<lparr>output_fd := fd\<rparr>)"
      using op by (auto simp: good_command_def)
    from "3.IH"(2) [OF out o [symmetric] ok run g] op show ?thesis
      by (auto intro: extends_trans)
  next
    case err
    obtain fd w1 where o: "sys_open f O_TRUNC w = (fd, w1)" by fastforce
    from "3.prems"(1) err o have ok: "\<not> fd < 0"
      and run: "build_loop ts (cmd\<lparr>error_fd := fd\<rparr>) w1 = (Inr c', w')"
      by (auto split: if_splits)
    note op = opened [OF o ok]
    have g: "good_command t0 (fds w1) (cmd\<lparr>error_fd := fd\<rparr>)"
      using op by (auto simp: good_command_def)
    from "3.IH"(3) [OF err o [symmetric] ok run g] op show ?thesis
      by (auto intro: extends_trans)
  next
    case arg
    from "3.prems"(1) arg
    have run: "build_loop (f # ts) (cmd\<lparr>args := args cmd @ [t]\<rparr>) w = (Inr c', w')"
      by simp
    have g: "good_command t0 (fds w) (cmd\<lparr>args := args cmd @ [t]\<rparr>)"
      using "3.prems"(2) by (simp add: good_command_def)
    from "3.IH"(4) [OF arg run g "3.prems"(3)] show ?thesis .
  qed
qed

lemma parse_command_good:
  assumes "parse_command seg w = (Inr c, w')" and "extends t0 (fds w)"
  shows "good_command t0 (fds w') c \<and> extends (fds w) (fds w')"
proof -
  have "build_loop seg \<lparr>args = [], input_fd = -1, output_fd = -1, error_fd = -1\<rparr> w = (Inr c, w')"
    using assms(1) by (auto simp: parse_command_def split: sum.splits prod.splits if_splits)
  moreover have "good_command t0 (fds w) \<lparr>args = [], input_fd = -1, output_fd = -1, error_fd = -1\<rparr>"
    by (simp add: good_command_def)
  ultimately show ?thesis using assms(2) by (rule build_loop_good)
qed

lemma build_all_good:
  assumes "build_all segs built w = (Some cmds, w')" and "extends t0 (fds w)"
    and "list_all (good_command t0 (fds w)) built"
  shows "list_all (good_command t0 (fds w')) cmds \<and> extends (fds w) (fds w')
    \<and> length cmds = length built + length segs"
  using assms
proof (induction segs arbitrary: built w)
  case Nil
  then show ?case by (simp add: extends_refl)
next
  case (Cons seg segs)
  obtain r w1 where p: "parse_command seg w = (r, w1)" by fastforce
  with Cons.prems(1) obtain c where r: "r = Inr c"
    and run: "build_all segs (built @ [c]) w1 = (Some cmds, w')"
    by (cases r) auto
  from parse_command_good [OF p [unfolded r] Cons.prems(2)]
  have g: "good_command t0 (fds w1) c" and e: "extends (fds w) (fds w1)" by simp_all
  have e0: "extends t0 (fds w1)" using Cons.prems(2) e by (rule extends_trans)
  have "list_all (good_command t0 (fds w1)) (built @ [c])"
    using Cons.prems(3) g e by (auto simp: list_all_iff intro: good_command_extends)
  from Cons.IH [OF run e0 this] e show ?case
    by (auto intro: extends_trans)
qed

lemma sys_pipe_fds:
  assumes "sys_pipe w = (Some p, w')"
  shows "extends (fds w) (fds w') \<and> good_pipe (fds w) (fds w') p"
proof -
  obtain r where r: "free_fd (fds w) 0 (fd_limit w) = Some r"
    using assms by (auto simp: sys_pipe_def split: option.splits)
  obtain wr where wr: "free_fd ((fds w)(r \<mapsto> PipeRead (pipes_made w))) 0 (fd_limit w) = Some wr"
    using assms r by (auto simp: sys_pipe_def split: option.splits)
  have rn: "fds w r = None" using free_fd_closed [OF r] by simp
  have "((fds w)(r \<mapsto> PipeRead (pipes_made w))) wr = None" using free_fd_closed [OF wr] by simp
  then have wrn: "wr \<noteq> r" "fds w wr = None" by (auto split: if_splits)
  have res: "p = (r, wr)"
      "fds w' = (fds w)(r \<mapsto> PipeRead (pipes_made w), wr \<mapsto> PipeWrite (pipes_made w))"
    using assms r wr by (auto simp: sys_pipe_def)
  show ?thesis
    using rn wrn by (auto simp: res extends_def good_pipe_def)
qed

lemma make_pipes_good:
  assumes "make_pipes n acc w = (Some pipes, w')" and "extends t1 (fds w)"
    and "list_all (good_pipe t1 (fds w)) acc"
  shows "list_all (good_pipe t1 (fds w')) pipes \<and> extends (fds w) (fds w')
    \<and> length pipes = length acc + n"
  using assms
proof (induction n arbitrary: acc w)
  case 0
  then show ?case by (simp add: extends_refl)
next
  case (Suc n)
  obtain r w1 where sp: "sys_pipe w = (r, w1)" by fastforce
  with Suc.prems(1) obtain p where r: "r = Some p"
    and run: "make_pipes n (acc @ [p]) w1 = (Some pipes, w')"
    by (cases r) auto
  from sys_pipe_fds [OF sp [unfolded r]]
  have e: "extends (fds w) (fds w1)" and g: "good_pipe (fds w) (fds w1) p" by simp_all
  have e1: "extends t1 (fds w1)" using Suc.prems(2) e by (rule extends_trans)
  have "good_pipe t1 (fds w1) p"
    using g Suc.prems(2) by (auto simp: good_pipe_def dest: extends_closed)
  then have "list_all (good_pipe t1 (fds w1)) (acc @ [p])"
    using Suc.prems(3) e by (auto simp: list_all_iff intro: good_pipe_extends)
  from Suc.IH [OF run e1 this] e show ?case
    by (auto intro: extends_trans)
qed

lemma pipeline_state:
  assumes std: "fds w 0 \<noteq> None" "fds w 1 \<noteq> None" "fds w 2 \<noteq> None"
    and built: "build_all segs [] w = (Some cmds, w1)"
    and piped: "make_pipes (length cmds - 1) [] w1 = (Some pipes, w2)"
    and i: "i < length cmds"
    and fork: "fds cw = fds w2"
  shows "length pipes = length cmds - 1
    \<and> (\<forall>p \<in> set pipes. fds cw (fst p) \<noteq> None \<and> fds cw (snd p) \<noteq> None)
    \<and> (\<forall>p \<in> set pipes. fst p \<notin> {0, 1, 2} \<and> snd p \<notin> {0, 1, 2})
    \<and> redirect_ok cw pipes (input_fd (cmds ! i))
    \<and> redirect_ok cw pipes (output_fd (cmds ! i))
    \<and> redirect_ok cw pipes (error_fd (cmds ! i))
    \<and> good_command (fds w) (fds cw) (cmds ! i)
    \<and> list_all (good_pipe (fds w1) (fds cw)) pipes"
proof -
  from build_all_good [OF built extends_refl]
  have g1: "list_all (good_command (fds w) (fds w1)) cmds" and e1: "extends (fds w) (fds w1)"
    by simp_all
  from make_pipes_good [OF piped extends_refl]
  have g2: "list_all (good_pipe (fds w1) (fds w2)) pipes" and e2: "extends (fds w1) (fds w2)"
    and len: "length pipes = length cmds - 1"
    by simp_all
  have gp: "good_pipe (fds w1) (fds w2) p" if "p \<in> set pipes" for p
    using g2 that by (simp add: list_all_iff)
  have std1: "fds w1 0 \<noteq> None" "fds w1 1 \<noteq> None" "fds w1 2 \<noteq> None"
    using std e1 by (auto simp: extends_def)
  have gc1: "good_command (fds w) (fds w1) (cmds ! i)"
    using g1 i by (simp add: list_all_length)
  then have gc: "good_command (fds w) (fds w2) (cmds ! i)"
    using e2 by (rule good_command_extends)
  have open_pipes: "\<forall>p \<in> set pipes. fds cw (fst p) \<noteq> None \<and> fds cw (snd p) \<noteq> None"
    using gp by (auto simp: good_pipe_def fork)
  have std_pipes: "\<forall>p \<in> set pipes. fst p \<notin> {0, 1, 2} \<and> snd p \<notin> {0, 1, 2}"
    using gp std1 by (auto simp: good_pipe_def)
  have ok: "redirect_ok cw pipes fd"
    if "fd = -1 \<or> (fds w fd = None \<and> fds w1 fd \<noteq> None \<and> fds w2 fd \<noteq> None)" for fd
    using that std gp unfolding redirect_ok_def good_pipe_def fork
    by (metis image_iff insertE singletonD)
  have "redirect_ok cw pipes (input_fd (cmds ! i))"
    using gc1 gc by (intro ok) (auto simp: good_command_def)
  moreover have "redirect_ok cw pipes (output_fd (cmds ! i))"
    using gc1 gc by (intro ok) (auto simp: good_command_def)
  moreover have "redirect_ok cw pipes (error_fd (cmds ! i))"
    using gc1 gc by (intro ok) (auto simp: good_command_def)
  ultimately show ?thesis
    using len open_pipes std_pipes gc g2 by (simp add: fork)
qed


lemma sys_fork_child:
  "(sys_fork body w = (None, w))
   \<or> (\<exists>pid w' cw. sys_fork body w = (Some pid, w') \<and> fds w' = fds w \<and> fds cw = fds w
        \<and> children w' = children w @ [\<lparr>ended = fst (body cw), child_fds = fds (snd (body cw))\<rparr>])"
proof (cases "forks_left w = 0")
  case True
  then show ?thesis by (simp add: sys_fork_def)
next
  case False
  define w1 where "w1 = w\<lparr>forks_left := forks_left w - 1, trace := trace w @ [Forked (length (children w))]\<rparr>"
  obtain e cw where b: "body w1 = (e, cw)" by fastforce
  have "sys_fork body w = (Some (length (children w)),
      w1\<lparr>files := files cw, trace := trace cw,
         children := children w @ [\<lparr>ended = e, child_fds = fds cw\<rparr>]\<rparr>)"
    using False b by (simp add: sys_fork_def Let_def w1_def)
  moreover have "fds w1 = fds w" by (simp add: w1_def)
  ultimately show ?thesis using b
    by (intro disjI2 exI [of _ "length (children w)"] exI [of _ w1] exI) (auto simp: w1_def)
qed

lemma children_report [simp]: "children (report d w) = children w"
  by (simp add: report_def)

lemma fds_report [simp]: "fds (report d w) = fds w"
  by (simp add: report_def)

lemma spawn_all_children:
  assumes "spawn_all cmds i n pipes pids w = (r, w')"
  shows "fds w' = fds w
    \<and> (\<exists>new. children w' = children w @ new \<and> length new \<le> length cmds
        \<and> (\<forall>j < length new. \<exists>cw. fds cw = fds w
              \<and> new ! j = \<lparr>ended = fst (pipeline_child (i + j) n pipes (cmds ! j) cw),
                           child_fds = fds (snd (pipeline_child (i + j) n pipes (cmds ! j) cw))\<rparr>))"
  using assms
proof (induction cmds arbitrary: i pids w)
  case Nil
  then show ?case by simp
next
  case (Cons cmd cmds)
  from sys_fork_child [of "pipeline_child i n pipes cmd" w]
  show ?case
  proof (elim disjE exE conjE)
    assume "sys_fork (pipeline_child i n pipes cmd) w = (None, w)"
    then show ?thesis using Cons.prems by auto
  next
    fix pid w1 cw
    assume f: "sys_fork (pipeline_child i n pipes cmd) w = (Some pid, w1)"
      and fd1: "fds w1 = fds w" and fcw: "fds cw = fds w"
      and ch: "children w1 = children w @ [\<lparr>ended = fst (pipeline_child i n pipes cmd cw),
          child_fds = fds (snd (pipeline_child i n pipes cmd cw))\<rparr>]"
    let ?first = "\<lparr>ended = fst (pipeline_child i n pipes cmd cw),
          child_fds = fds (snd (pipeline_child i n pipes cmd cw))\<rparr>"
    from Cons.prems f have run: "spawn_all cmds (i + 1) n pipes (pids @ [pid]) w1 = (r, w')"
      by simp
    from Cons.IH [OF run] obtain new where fd': "fds w' = fds w1"
      and new: "children w' = children w1 @ new" "length new \<le> length cmds"
      and each: "\<forall>j < length new. \<exists>cw. fds cw = fds w1
              \<and> new ! j = \<lparr>ended = fst (pipeline_child (i + 1 + j) n pipes (cmds ! j) cw),
                           child_fds = fds (snd (pipeline_child (i + 1 + j) n pipes (cmds ! j) cw))\<rparr>"
      by blast
    have "\<exists>cw'. fds cw' = fds w
        \<and> (?first # new) ! j = \<lparr>ended = fst (pipeline_child (i + j) n pipes ((cmd # cmds) ! j) cw'),
            child_fds = fds (snd (pipeline_child (i + j) n pipes ((cmd # cmds) ! j) cw'))\<rparr>"
      if "j < length (?first # new)" for j
    proof (cases j)
      case 0
      then show ?thesis using fcw by auto
    next
      case (Suc j')
      then have "j' < length new" using that by simp
      with each obtain cw' where "fds cw' = fds w1"
        "new ! j' = \<lparr>ended = fst (pipeline_child (i + 1 + j') n pipes (cmds ! j') cw'),
                           child_fds = fds (snd (pipeline_child (i + 1 + j') n pipes (cmds ! j') cw'))\<rparr>"
        by blast
      then show ?thesis using Suc fd1 by auto
    qed
    then show ?thesis
      using fd' fd1 new ch by (intro conjI exI [of _ "?first # new"]) auto
  qed
qed

lemma fds_sys_pipe_children [simp]: "children (snd (sys_pipe w)) = children w"
  by (simp add: sys_pipe_def split: option.splits)

lemma make_pipes_children: "children (snd (make_pipes n acc w)) = children w"
proof (induction n arbitrary: acc w)
  case 0
  show ?case by simp
next
  case (Suc n)
  obtain r w1 where sp: "sys_pipe w = (r, w1)" by fastforce
  then have "children w1 = children w" using fds_sys_pipe_children [of w] by simp
  then show ?case using sp Suc.IH by (cases r) auto
qed

lemma children_close_pipes [simp]: "children (close_pipes pipes w) = children w"
  unfolding close_pipes_def by (induction pipes arbitrary: w) (auto simp: sys_close_def)

lemma children_fold_waitpid [simp]: "children (fold sys_waitpid pids w) = children w"
  by (induction pids arbitrary: w) (auto simp: sys_waitpid_def)

lemma execute_pipeline_children:
  "\<exists>new. children (execute_pipeline cmds w1) = children w1 @ new \<and> length new \<le> length cmds
     \<and> (new = [] \<or> (\<exists>pipes w2. make_pipes (length cmds - 1) [] w1 = (Some pipes, w2)
          \<and> (\<forall>j < length new. \<exists>cw. fds cw = fds w2
              \<and> new ! j = \<lparr>ended = fst (pipeline_child j (length cmds) pipes (cmds ! j) cw),
                   child_fds = fds (snd (pipeline_child j (length cmds) pipes (cmds ! j) cw))\<rparr>)))"
proof -
  obtain r1 w2 where m: "make_pipes (length cmds - 1) [] w1 = (r1, w2)" by fastforce
  have c2: "children w2 = children w1" using make_pipes_children [of "length cmds - 1" "[]" w1] m by simp
  show ?thesis
  proof (cases r1)
    case None
    then show ?thesis using m c2 by (simp add: execute_pipeline_def)
  next
    case (Some pipes)
    obtain r2 w3 where s: "spawn_all cmds 0 (length cmds) pipes [] w2 = (r2, w3)" by fastforce
    from spawn_all_children [OF s] obtain new where
      new: "children w3 = children w2 @ new" "length new \<le> length cmds"
      and each: "\<forall>j < length new. \<exists>cw. fds cw = fds w2
              \<and> new ! j = \<lparr>ended = fst (pipeline_child j (length cmds) pipes (cmds ! j) cw),
                   child_fds = fds (snd (pipeline_child j (length cmds) pipes (cmds ! j) cw))\<rparr>"
      by auto
    have "children (execute_pipeline cmds w1) = children w3"
      using m Some s by (cases r2) (simp_all add: execute_pipeline_def)
    then show ?thesis using new each c2 m Some by auto
  qed
qed


text \<open>
  Claim C9. The shell has its standard descriptors open and has built the commands of a
  pipeline; \<^verbatim>\<open>execute_pipeline\<close> forks a child for the command of index \<open>i\<close>. That child
  reaches \<^verbatim>\<open>execvp\<close> with its standard input on the file of its input redirection when
  the command has one, whether or not a pipe comes before it, and on the read end of the
  pipe before it only when the command has none; with its standard output on the file of
  its output redirection when it has one, and on the write end of the pipe after it only
  when it has none; and with its standard error on the file of its error redirection
  when it has one.
\<close>

theorem C9_redirection_overrides_pipe:
  assumes std: "fds w 0 \<noteq> None" "fds w 1 \<noteq> None" "fds w 2 \<noteq> None"
    and built: "build_all segs [] w = (Some cmds, w1)"
    and forked: "length (children w1) + i < length (children (execute_pipeline cmds w1))"
  shows "ended (forked_child cmds w1 i) = Exec (args (cmds ! i))
    \<and> (if input_fd (cmds ! i) \<noteq> -1
       then child_fds (forked_child cmds w1 i) 0 = fds w1 (input_fd (cmds ! i))
          \<and> (\<exists>path. child_fds (forked_child cmds w1 i) 0 = Some (FileRead path))
       else if 0 < i then (\<exists>k. child_fds (forked_child cmds w1 i) 0 = Some (PipeRead k))
       else child_fds (forked_child cmds w1 i) 0 = fds w1 0)
    \<and> (if output_fd (cmds ! i) \<noteq> -1
       then child_fds (forked_child cmds w1 i) 1 = fds w1 (output_fd (cmds ! i))
          \<and> (\<exists>path. child_fds (forked_child cmds w1 i) 1 = Some (FileTrunc path))
       else if i < length cmds - 1 then (\<exists>k. child_fds (forked_child cmds w1 i) 1 = Some (PipeWrite k))
       else child_fds (forked_child cmds w1 i) 1 = fds w1 1)
    \<and> (if error_fd (cmds ! i) \<noteq> -1
       then child_fds (forked_child cmds w1 i) 2 = fds w1 (error_fd (cmds ! i))
          \<and> (\<exists>path. child_fds (forked_child cmds w1 i) 2 = Some (FileTrunc path))
       else child_fds (forked_child cmds w1 i) 2 = fds w1 2)"
proof -
  let ?c = "cmds ! i"
  let ?n = "length cmds"
  from execute_pipeline_children [of cmds w1] obtain new where
    new: "children (execute_pipeline cmds w1) = children w1 @ new" "length new \<le> length cmds"
    and how: "new = [] \<or> (\<exists>pipes w2. make_pipes (length cmds - 1) [] w1 = (Some pipes, w2)
          \<and> (\<forall>j < length new. \<exists>cw. fds cw = fds w2
              \<and> new ! j = \<lparr>ended = fst (pipeline_child j (length cmds) pipes (cmds ! j) cw),
                   child_fds = fds (snd (pipeline_child j (length cmds) pipes (cmds ! j) cw))\<rparr>))"
    by blast
  have i_new: "i < length new" using forked new by simp
  then have i: "i < ?n" using new by simp
  from how i_new obtain pipes w2 cw where piped: "make_pipes (?n - 1) [] w1 = (Some pipes, w2)"
    and fork: "fds cw = fds w2"
    and rec: "new ! i = \<lparr>ended = fst (pipeline_child i ?n pipes ?c cw),
                   child_fds = fds (snd (pipeline_child i ?n pipes ?c cw))\<rparr>"
    by fastforce
  have child: "forked_child cmds w1 i = \<lparr>ended = fst (pipeline_child i ?n pipes ?c cw),
                   child_fds = fds (snd (pipeline_child i ?n pipes ?c cw))\<rparr>"
    using new i_new rec by (simp add: forked_child_def)
  note st = pipeline_state [OF std built piped i fork]
  from st have len: "length pipes = ?n - 1" by blast
  from pipeline_child_streams [of i ?n pipes cw ?c] i st
  have streams: "fst (pipeline_child i ?n pipes ?c cw) = Exec (args ?c)"
    "fds (snd (pipeline_child i ?n pipes ?c cw)) 0 =
        (if input_fd ?c \<noteq> -1 then fds cw (input_fd ?c)
         else if i > 0 then fds cw (fst (pipes ! (i - 1))) else fds cw 0)"
    "fds (snd (pipeline_child i ?n pipes ?c cw)) 1 =
        (if output_fd ?c \<noteq> -1 then fds cw (output_fd ?c)
         else if i < ?n - 1 then fds cw (snd (pipes ! i)) else fds cw 1)"
    "fds (snd (pipeline_child i ?n pipes ?c cw)) 2 =
        (if error_fd ?c \<noteq> -1 then fds cw (error_fd ?c) else fds cw 2)"
    by blast+
  from build_all_good [OF built extends_refl]
  have g1: "list_all (good_command (fds w) (fds w1)) cmds" and e1: "extends (fds w) (fds w1)"
    by simp_all
  from make_pipes_good [OF piped extends_refl]
  have g2: "list_all (good_pipe (fds w1) (fds w2)) pipes" and e2: "extends (fds w1) (fds w2)"
    by simp_all
  have gc: "good_command (fds w) (fds w1) ?c" using g1 i by (simp add: list_all_length)
  have same: "fds cw fd = fds w1 fd" if "fds w1 fd \<noteq> None" for fd
    using that e2 by (auto simp: extends_def fork)
  have std1: "fds w1 0 \<noteq> None" "fds w1 1 \<noteq> None" "fds w1 2 \<noteq> None"
    using std e1 by (auto simp: extends_def)
  have prev: "\<exists>k. fds cw (fst (pipes ! (i - 1))) = Some (PipeRead k)" if "0 < i"
    using that i len g2 by (simp add: list_all_length good_pipe_def fork)
  have nxt: "\<exists>k. fds cw (snd (pipes ! i)) = Some (PipeWrite k)" if "i < ?n - 1"
    using that len g2 by (simp add: list_all_length good_pipe_def fork)
  have inp: "fds cw (input_fd ?c) = fds w1 (input_fd ?c) \<and> (\<exists>path. fds w1 (input_fd ?c) = Some (FileRead path))"
    if "input_fd ?c \<noteq> -1"
    using that gc same [of "input_fd ?c"] by (auto simp: good_command_def)
  have outp: "fds cw (output_fd ?c) = fds w1 (output_fd ?c) \<and> (\<exists>path. fds w1 (output_fd ?c) = Some (FileTrunc path))"
    if "output_fd ?c \<noteq> -1"
    using that gc same [of "output_fd ?c"] by (auto simp: good_command_def)
  have errp: "fds cw (error_fd ?c) = fds w1 (error_fd ?c) \<and> (\<exists>path. fds w1 (error_fd ?c) = Some (FileTrunc path))"
    if "error_fd ?c \<noteq> -1"
    using that gc same [of "error_fd ?c"] by (auto simp: good_command_def)
  let ?ch = "forked_child cmds w1 i"
  have ends: "ended ?ch = Exec (args ?c)"
    by (simp add: child streams(1))
  have ch0: "child_fds ?ch 0 = (if input_fd ?c \<noteq> -1 then fds cw (input_fd ?c)
         else if i > 0 then fds cw (fst (pipes ! (i - 1))) else fds cw 0)"
    by (simp only: child streams(2) child.simps)
  have ch1: "child_fds ?ch 1 = (if output_fd ?c \<noteq> -1 then fds cw (output_fd ?c)
         else if i < ?n - 1 then fds cw (snd (pipes ! i)) else fds cw 1)"
    by (simp only: child streams(3) child.simps)
  have ch2: "child_fds ?ch 2 = (if error_fd ?c \<noteq> -1 then fds cw (error_fd ?c) else fds cw 2)"
    by (simp only: child streams(4) child.simps)
  have stdin: "if input_fd ?c \<noteq> -1
       then child_fds ?ch 0 = fds w1 (input_fd ?c) \<and> (\<exists>path. child_fds ?ch 0 = Some (FileRead path))
       else if 0 < i then (\<exists>k. child_fds ?ch 0 = Some (PipeRead k))
       else child_fds ?ch 0 = fds w1 0"
  proof (cases "input_fd ?c \<noteq> -1")
    case True
    then show ?thesis using ch0 inp by auto
  next
    case False
    then show ?thesis using ch0 prev same [OF std1(1)] by (cases "0 < i") auto
  qed
  have stdout: "if output_fd ?c \<noteq> -1
       then child_fds ?ch 1 = fds w1 (output_fd ?c) \<and> (\<exists>path. child_fds ?ch 1 = Some (FileTrunc path))
       else if i < ?n - 1 then (\<exists>k. child_fds ?ch 1 = Some (PipeWrite k))
       else child_fds ?ch 1 = fds w1 1"
  proof (cases "output_fd ?c \<noteq> -1")
    case True
    then show ?thesis using ch1 outp by auto
  next
    case False
    then show ?thesis using ch1 nxt same [OF std1(2)] by (cases "i < ?n - 1") auto
  qed
  have stderr: "if error_fd ?c \<noteq> -1
       then child_fds ?ch 2 = fds w1 (error_fd ?c) \<and> (\<exists>path. child_fds ?ch 2 = Some (FileTrunc path))
       else child_fds ?ch 2 = fds w1 2"
  proof (cases "error_fd ?c \<noteq> -1")
    case True
    then show ?thesis using ch2 errp by auto
  next
    case False
    then show ?thesis using ch2 same [OF std1(3)] by auto
  qed
  from ends stdin stdout stderr show ?thesis by (intro conjI)
qed

theorem C9_redirection_overrides_pipe_witness:
  "fst (build_all sample_segments [] shell0) = Some sample_commands
   \<and> ended (forked_child sample_commands built_world 1) = Exec [''b'']
   \<and> child_fds (forked_child sample_commands built_world 1) 0 = Some (FileRead ''in.txt'')
   \<and> child_fds (forked_child sample_commands built_world 1) 1 = Some (FileTrunc ''out.txt'')
   \<and> (\<exists>k. child_fds (forked_child sample_commands built_world 0) 1 = Some (PipeWrite k))"
proof -
  have std: "fds shell0 0 \<noteq> None" "fds shell0 1 \<noteq> None" "fds shell0 2 \<noteq> None"
    by (simp_all add: shell0_def)
  have cmds: "fst (build_all sample_segments [] shell0) = Some sample_commands"
    by code_simp
  then have built: "build_all sample_segments [] shell0 = (Some sample_commands, built_world)"
    by (simp add: built_world_def prod_eq_iff)
  have forked: "length (children built_world) + 1 < length (children (execute_pipeline sample_commands built_world))"
      "length (children built_world) + 0 < length (children (execute_pipeline sample_commands built_world))"
    by code_simp+
  have table: "fds built_world 3 = Some (FileRead ''in.txt'')"
      "fds built_world 4 = Some (FileTrunc ''out.txt'')"
    by code_simp+
  have fields: "sample_commands ! Suc 0 = \<lparr>args = [''b''], input_fd = 3, output_fd = 4, error_fd = -1\<rparr>"
    "sample_commands ! 0 = simple_command ''a''" "length sample_commands = 3"
    by (simp_all add: sample_commands_def)
  from C9_redirection_overrides_pipe [OF std built forked(1)]
  have "ended (forked_child sample_commands built_world 1) = Exec [''b'']
   \<and> child_fds (forked_child sample_commands built_world 1) 0 = Some (FileRead ''in.txt'')
   \<and> child_fds (forked_child sample_commands built_world 1) 1 = Some (FileTrunc ''out.txt'')"
    by (simp add: fields table)
  moreover from C9_redirection_overrides_pipe [OF std built forked(2)]
  have "\<exists>k. child_fds (forked_child sample_commands built_world 0) 1 = Some (PipeWrite k)"
    by (simp add: fields simple_command_def)
  ultimately show ?thesis using cmds by blast
qed


section \<open>Syntax errors and forks\<close>

lemma quiet_refl: "quiet w w"
  by (simp add: quiet_def)

lemma quiet_same: "trace w' = trace w \<Longrightarrow> quiet w w'"
  by (simp add: quiet_def)

lemma quiet_trans: "quiet w w' \<Longrightarrow> quiet w' w'' \<Longrightarrow> quiet w w''"
  by (auto simp: quiet_def)

lemma quiet_event: "\<not> is_syntax ev \<Longrightarrow> quiet w (w\<lparr>trace := trace w @ [ev]\<rparr>)"
  by (simp add: quiet_def)

lemma trace_sys_close [simp]: "trace (sys_close fd w) = trace w"
  by (simp add: sys_close_def)

lemma trace_sys_dup2 [simp]: "trace (snd (sys_dup2 a b w)) = trace w"
  by (simp add: sys_dup2_def)

lemma trace_sys_open [simp]: "trace (snd (sys_open path mode w)) = trace w"
  by (simp add: sys_open_def split: option.splits open_mode.splits)

lemma children_sys_open [simp]: "children (snd (sys_open path mode w)) = children w"
  by (simp add: sys_open_def split: option.splits open_mode.splits)

lemma trace_sys_pipe [simp]: "trace (snd (sys_pipe w)) = trace w"
  by (simp add: sys_pipe_def split: option.splits)

lemma trace_close_pipes [simp]: "trace (close_pipes pipes w) = trace w"
  unfolding close_pipes_def by (induction pipes arbitrary: w) auto

lemma trace_apply_redirect [simp]: "trace (apply_redirect fd target w) = trace w"
  by (simp add: apply_redirect_def)

lemma trace_close_command [simp]: "trace (close_command c w) = trace w"
  by (simp add: close_command_def Let_def)

lemma children_close_command [simp]: "children (close_command c w) = children w"
  by (simp add: close_command_def Let_def sys_close_def)

lemma trace_fold_close_command [simp]: "trace (fold close_command cs w) = trace w"
  by (induction cs arbitrary: w) auto

lemma children_fold_close_command [simp]: "children (fold close_command cs w) = children w"
  by (induction cs arbitrary: w) auto

lemma trace_pipeline_child:
  "trace (snd (pipeline_child i n pipes cmd w)) = trace w
   \<or> trace (snd (pipeline_child i n pipes cmd w)) = trace w @ [Report Perror]"
proof -
  obtain r1 w1 where p1: "(if i > 0 then sys_dup2 (fst (pipes ! (i - 1))) 0 w else (0, w)) = (r1, w1)"
    by fastforce
  have "w1 = snd (if i > 0 then sys_dup2 (fst (pipes ! (i - 1))) 0 w else (0, w))"
    by (simp only: p1 snd_conv)
  then have t1: "trace w1 = trace w"
    by simp
  obtain r2 w2 where p2: "(if i < n - 1 then sys_dup2 (snd (pipes ! i)) 1 w1 else (0, w1)) = (r2, w2)"
    by fastforce
  have "w2 = snd (if i < n - 1 then sys_dup2 (snd (pipes ! i)) 1 w1 else (0, w1))"
    by (simp only: p2 snd_conv)
  then have t2: "trace w2 = trace w"
    by (simp add: t1)
  show ?thesis
    unfolding pipeline_child_def p1 prod.case p2
    by (simp add: t1 t2 report_def Let_def)
qed

lemma quiet_pipeline_child: "quiet w (snd (pipeline_child i n pipes cmd w))"
  using trace_pipeline_child [of i n pipes cmd w] by (auto simp: quiet_def)

lemma quiet_sys_fork:
  assumes "\<And>w0. quiet w0 (snd (body w0))"
  shows "quiet w (snd (sys_fork body w))"
proof (cases "forks_left w = 0")
  case True
  then show ?thesis by (simp add: sys_fork_def quiet_refl)
next
  case False
  define w1 where "w1 = w\<lparr>forks_left := forks_left w - 1, trace := trace w @ [Forked (length (children w))]\<rparr>"
  obtain e cw where b: "body w1 = (e, cw)" by fastforce
  from assms [of w1] b obtain evs where "trace cw = trace w1 @ evs" "\<not> list_ex is_syntax evs"
    by (auto simp: quiet_def)
  then have "trace cw = trace w @ (Forked (length (children w)) # evs)"
      "\<not> list_ex is_syntax (Forked (length (children w)) # evs)"
    by (simp_all add: w1_def)
  then have "quiet w (w1\<lparr>files := files cw, trace := trace cw,
               children := children w @ [\<lparr>ended = e, child_fds = fds cw\<rparr>]\<rparr>)"
    unfolding quiet_def by (intro exI [of _ "Forked (length (children w)) # evs"]) simp
  moreover have "sys_fork body w = (Some (length (children w)),
      w1\<lparr>files := files cw, trace := trace cw,
         children := children w @ [\<lparr>ended = e, child_fds = fds cw\<rparr>]\<rparr>)"
    using False b by (simp add: sys_fork_def Let_def w1_def)
  ultimately show ?thesis by simp
qed

lemma quiet_report: "\<not> is_syntax (Report d) \<Longrightarrow> quiet w (report d w)"
  by (simp add: quiet_def report_def)

lemma quiet_make_pipes: "quiet w (snd (make_pipes n pipes w))"
proof (induction n arbitrary: pipes w)
  case 0
  show ?case by (simp add: quiet_refl)
next
  case (Suc n)
  obtain r w' where p: "sys_pipe w = (r, w')" by fastforce
  then have t: "trace w' = trace w" using trace_sys_pipe [of w] by simp
  show ?case
  proof (cases r)
    case None
    then show ?thesis using p t by (simp add: quiet_def report_def)
  next
    case (Some pr)
    have "quiet w w'" using t by (rule quiet_same)
    then show ?thesis using p Some Suc.IH [of w' "pipes @ [pr]"] by (auto intro: quiet_trans)
  qed
qed

lemma quiet_spawn_all: "quiet w (snd (spawn_all cmds i n pipes pids w))"
proof (induction cmds arbitrary: i pids w)
  case Nil
  show ?case by (simp add: quiet_refl)
next
  case (Cons cmd cmds)
  obtain r w' where f: "sys_fork (pipeline_child i n pipes cmd) w = (r, w')" by fastforce
  have q: "quiet w w'"
    using quiet_sys_fork [of "pipeline_child i n pipes cmd" w] f quiet_pipeline_child by simp
  show ?case
  proof (cases r)
    case None
    have "quiet w' (report Perror w')" by (simp add: quiet_report)
    with q show ?thesis using f None by (auto intro: quiet_trans)
  next
    case (Some pid)
    then show ?thesis using f q Cons.IH [of w' "i + 1" "pids @ [pid]"] by (auto intro: quiet_trans)
  qed
qed

lemma quiet_fold_waitpid: "quiet w (fold sys_waitpid pids w)"
proof (induction pids arbitrary: w)
  case Nil
  show ?case by (simp add: quiet_refl)
next
  case (Cons pid pids)
  have "quiet w (sys_waitpid pid w)" by (simp add: quiet_def sys_waitpid_def)
  then show ?case using Cons.IH [of "sys_waitpid pid w"] by (auto intro: quiet_trans)
qed

lemma quiet_execute_pipeline: "quiet w (execute_pipeline cmds w)"
proof -
  obtain r1 w1 where m: "make_pipes (length cmds - 1) [] w = (r1, w1)" by fastforce
  have q1: "quiet w w1" using quiet_make_pipes [of w "length cmds - 1" "[]"] m by simp
  show ?thesis
  proof (cases r1)
    case None
    then show ?thesis using m q1 by (simp add: execute_pipeline_def)
  next
    case (Some pipes)
    obtain r2 w2 where s: "spawn_all cmds 0 (length cmds) pipes [] w1 = (r2, w2)" by fastforce
    have q2: "quiet w1 w2" using quiet_spawn_all [of w1 cmds 0 "length cmds" pipes "[]"] s by simp
    show ?thesis
    proof (cases r2)
      case None
      then show ?thesis using m Some s q1 q2 by (auto simp: execute_pipeline_def intro: quiet_trans)
    next
      case (Some pids)
      have "quiet w2 (close_pipes pipes w2)" by (rule quiet_same) simp
      moreover have "quiet (close_pipes pipes w2) (fold sys_waitpid pids (close_pipes pipes w2))"
        by (rule quiet_fold_waitpid)
      ultimately show ?thesis
        using m \<open>r1 = Some pipes\<close> s Some q1 q2
        by (auto simp: execute_pipeline_def intro: quiet_trans)
    qed
  qed
qed

lemma build_loop_trace: "trace (snd (build_loop ts cmd w)) = trace w \<and> children (snd (build_loop ts cmd w)) = children w"
proof (induction ts cmd w rule: build_loop.induct)
  case (1 cmd w)
  show ?case by simp
next
  case (2 t cmd w)
  show ?case by simp
next
  case (3 t f ts cmd w)
  obtain fd1 w1 where o1: "sys_open f O_RDONLY w = (fd1, w1)" by fastforce
  obtain fd2 w2 where o2: "sys_open f O_TRUNC w = (fd2, w2)" by fastforce
  have t1: "trace w1 = trace w" "children w1 = children w"
    using o1 trace_sys_open [of f O_RDONLY w] children_sys_open [of f O_RDONLY w] by simp_all
  have t2: "trace w2 = trace w" "children w2 = children w"
    using o2 trace_sys_open [of f O_TRUNC w] children_sys_open [of f O_TRUNC w] by simp_all
  show ?case
    using 3 o1 o2 t1 t2 by (auto split: if_splits)
qed

lemma parse_command_trace:
  "trace (snd (parse_command seg w)) = trace w \<and> children (snd (parse_command seg w)) = children w"
  by (simp add: parse_command_def build_loop_trace split: sum.splits prod.splits)

lemma build_all_trace:
  "children (snd (build_all segs built w)) = children w
   \<and> (case fst (build_all segs built w) of
        None \<Rightarrow> (\<exists>d. trace (snd (build_all segs built w)) = trace w @ [Report d])
      | Some cmds \<Rightarrow> trace (snd (build_all segs built w)) = trace w)"
proof (induction segs arbitrary: built w)
  case Nil
  show ?case by simp
next
  case (Cons seg segs)
  obtain r w' where p: "parse_command seg w = (r, w')" by fastforce
  have t: "trace w' = trace w" "children w' = children w"
    using p parse_command_trace [of seg w] by simp_all
  show ?case
  proof (cases r)
    case (Inl d)
    then show ?thesis using p t by (simp add: report_def)
  next
    case (Inr cmd)
    have "children (snd (build_all segs (built @ [cmd]) w')) = children w
      \<and> (case fst (build_all segs (built @ [cmd]) w') of
          None \<Rightarrow> (\<exists>d. trace (snd (build_all segs (built @ [cmd]) w')) = trace w @ [Report d])
        | Some cmds \<Rightarrow> trace (snd (build_all segs (built @ [cmd]) w')) = trace w)"
      using Cons.IH [of "built @ [cmd]" w'] by (simp only: t)
    moreover have "build_all (seg # segs) built w = build_all segs (built @ [cmd]) w'"
      using p Inr by simp
    ultimately show ?thesis by (simp only:)
  qed
qed

lemma handle_builtin_trace:
  "\<exists>evs. trace (snd (handle_builtin tokens w)) = trace w @ evs
     \<and> \<not> list_ex is_syntax evs \<and> \<not> list_ex is_fork evs"
  by (auto simp: handle_builtin_def report_def split: list.splits)

lemma handle_builtin_children: "children (snd (handle_builtin tokens w)) = children w"
  by (auto simp: handle_builtin_def report_def split: list.splits)

lemma handle_builtin_unhandled: "handle_builtin tokens w = (False, w1) \<Longrightarrow> w1 = w"
  by (auto simp: handle_builtin_def split: list.splits if_splits)

lemma quiet_no_syntax:
  assumes "quiet w w'" and "trace w' = trace w @ evs"
  shows "\<not> list_ex is_syntax evs"
  using assms by (auto simp: quiet_def)

text \<open>
  The count of the first loop of \<^verbatim>\<open>setup_redirection\<close> is large enough: the second loop
  stores at most \<open>count\<close> arguments, so \<^verbatim>\<open>new_args[j] = NULL\<close> is written inside the
  \<^verbatim>\<open>count + 1\<close> slots.
\<close>

lemma count_tokens_Suc: "count_tokens ts (Suc n) = Suc (count_tokens ts n)"
  by (induction ts arbitrary: n rule: induct_list012) simp_all

lemma count_tokens_skip: "count_tokens ts 0 \<le> Suc (count_tokens (f # ts) 0)"
proof (induction ts arbitrary: f rule: induct_list012)
  case 1
  show ?case by simp
next
  case (2 x)
  show ?case by (simp add: count_tokens_Suc)
next
  case (3 x y zs)
  show ?case
    using "3.IH"(1) [of y] by (simp add: count_tokens_Suc)
qed

lemma setup_loop_fits:
  "setup_loop ts new_args w = (NewArgs out, w') \<Longrightarrow>
   length out \<le> length new_args + count_tokens ts 0"
proof (induction ts new_args w rule: setup_loop.induct)
  case (1 new_args w)
  then show ?case by simp
next
  case (2 t new_args w)
  then show ?case by (auto simp: is_redirect_def split: if_splits)
next
  case (3 t f ts new_args w)
  show ?case
  proof (cases "is_redirect t")
    case True
    then show ?thesis
      using 3 by (auto simp: is_redirect_def split: if_splits redirected.splits)
  next
    case False
    then have ne: "t \<noteq> ''>''" "t \<noteq> ''2>''" "t \<noteq> ''<''" by (simp_all add: is_redirect_def)
    show ?thesis
    proof (cases "t = ''>>''")
      case True
      then obtain w1 where r: "redirect_to f O_APPEND 1 w = Redirected w1"
          and l: "setup_loop ts new_args w1 = (NewArgs out, w')"
        using "3.prems" by (auto split: redirected.splits)
      have "length out \<le> length new_args + count_tokens ts 0"
        using "3.IH"(4) [OF ne True r l] .
      moreover have "count_tokens (t # f # ts) 0 = Suc (count_tokens (f # ts) 0)"
        using False by (simp add: count_tokens_Suc)
      ultimately show ?thesis
        using count_tokens_skip [of ts f] by simp
    next
      case not_append: False
      then have l: "setup_loop (f # ts) (new_args @ [t]) w = (NewArgs out, w')"
        using "3.prems" ne by simp
      have "length out \<le> length (new_args @ [t]) + count_tokens (f # ts) 0"
        using "3.IH"(5) [OF ne not_append l] .
      moreover have "count_tokens (t # f # ts) 0 = Suc (count_tokens (f # ts) 0)"
        using False by (simp add: count_tokens_Suc)
      ultimately show ?thesis by simp
    qed
  qed
qed

lemma trace_redirect_to:
  "(case redirect_to path mode target w of
      OpenFailed \<Rightarrow> True
    | Dup2Failed fd w' \<Rightarrow> trace w' = trace w
    | Redirected w' \<Rightarrow> trace w' = trace w)"
proof -
  obtain fd w1 where o: "sys_open path mode w = (fd, w1)" by fastforce
  then have t1: "trace w1 = trace w" using trace_sys_open [of path mode w] by simp
  obtain r w2 where d: "sys_dup2 fd target w1 = (r, w2)" by fastforce
  then have t2: "trace w2 = trace w" using trace_sys_dup2 [of fd target w1] t1 by simp
  show ?thesis by (simp add: redirect_to_def o d t2)
qed

lemma trace_setup_loop: "trace (snd (setup_loop ts new_args w)) = trace w"
proof (induction ts new_args w rule: setup_loop.induct)
  case (1 new_args w)
  show ?case by simp
next
  case (2 t new_args w)
  show ?case by simp
next
  case (3 t f ts new_args w)
  show ?case
    using 3 trace_redirect_to [where path = f and mode = O_TRUNC and target = 1 and w = w]
      trace_redirect_to [where path = f and mode = O_TRUNC and target = 2 and w = w]
      trace_redirect_to [where path = f and mode = O_RDONLY and target = 0 and w = w]
      trace_redirect_to [where path = f and mode = O_APPEND and target = 1 and w = w]
    by (auto split: redirected.splits)
qed

lemma trace_command_child: "\<exists>evs. trace (snd (command_child as w)) = trace w @ evs"
proof -
  obtain r w' where s: "setup_redirection as w = (r, w')" by fastforce
  then have "trace w' = trace w"
    using trace_setup_loop [of as "[]" w]
    by (simp add: setup_redirection_def)
  then show ?thesis
    using s by (auto simp: command_child_def report_def split: setup_result.splits)
qed

lemma trace_execute_command:
  "(\<exists>pid rest. trace (execute_command as w) = trace w @ Forked pid # rest)
   \<or> trace (execute_command as w) = trace w @ [Report Perror]"
proof (cases "forks_left w = 0")
  case True
  then show ?thesis by (simp add: execute_command_def sys_fork_def report_def)
next
  case False
  define w1 where "w1 = w\<lparr>forks_left := forks_left w - 1, trace := trace w @ [Forked (length (children w))]\<rparr>"
  obtain e cw where b: "command_child as w1 = (e, cw)" by fastforce
  obtain evs where "trace cw = trace w1 @ evs"
    using trace_command_child [of as w1] b by auto
  then have t: "trace cw = trace w @ Forked (length (children w)) # evs"
    by (simp add: w1_def)
  have "sys_fork (command_child as) w = (Some (length (children w)),
      w1\<lparr>files := files cw, trace := trace cw,
         children := children w @ [\<lparr>ended = e, child_fds = fds cw\<rparr>]\<rparr>)"
    using False b by (simp add: sys_fork_def Let_def w1_def)
  then have "trace (execute_command as w) = trace w @ Forked (length (children w)) # (evs @ [Waited (length (children w))])"
    by (simp add: execute_command_def sys_waitpid_def t)
  then show ?thesis by blast
qed

lemma no_fork_on_rejected_pipeline:
  assumes multi: "\<not> single_command tokens"
    and tr: "trace (execute_tokens tokens w) = trace w @ evs"
    and syn: "list_ex is_syntax evs"
  shows "\<not> list_ex is_fork evs \<and> children (execute_tokens tokens w) = children w"
proof -
  obtain handled w1 where hb: "handle_builtin tokens w = (handled, w1)" by fastforce
  obtain evs1 where e1: "trace w1 = trace w @ evs1" "\<not> list_ex is_syntax evs1" "\<not> list_ex is_fork evs1"
    using handle_builtin_trace [of tokens w] hb by auto
  have c1: "children w1 = children w"
    using handle_builtin_children [of tokens w] hb by simp
  have q1: "quiet w w1" using e1 by (auto simp: quiet_def)
  show ?thesis
  proof (cases handled)
    case True
    then have "execute_tokens tokens w = w1" using hb by (simp add: execute_tokens_def)
    then show ?thesis using q1 tr syn quiet_no_syntax by blast
  next
    case False
    note not_builtin = this
    show ?thesis
    proof (cases "split_pipeline tokens")
      case (Inl e)
      then have "execute_tokens tokens w = report (SyntaxError e) w1"
        using hb not_builtin by (simp add: execute_tokens_def)
      then show ?thesis using tr e1 c1 by (auto simp: report_def)
    next
      case (Inr commands)
      then have len: "length commands \<noteq> 1" using multi by (simp add: single_command_def)
      obtain r w2 where b: "build_all commands [] w1 = (r, w2)" by fastforce
      have c2: "children w2 = children w1" using build_all_trace [of commands "[]" w1] b by simp
      show ?thesis
      proof (cases r)
        case None
        then obtain d where "trace w2 = trace w1 @ [Report d]"
          using build_all_trace [of commands "[]" w1] b by auto
        moreover have "execute_tokens tokens w = w2\<lparr>trace := trace w2 @ [UndefinedBehaviour]\<rparr>"
          using hb not_builtin Inr len b None by (simp add: execute_tokens_def)
        ultimately show ?thesis using tr e1 c1 c2 by auto
      next
        case (Some cmds)
        then have "trace w2 = trace w1"
          using build_all_trace [of commands "[]" w1] b by auto
        then have "quiet w1 w2" by (rule quiet_same)
        moreover have "quiet w2 (execute_pipeline cmds w2)" by (rule quiet_execute_pipeline)
        moreover have "quiet (execute_pipeline cmds w2) (fold close_command cmds (execute_pipeline cmds w2))"
          by (rule quiet_same) simp
        moreover have "execute_tokens tokens w = fold close_command cmds (execute_pipeline cmds w2)"
          using hb not_builtin Inr len b Some by (simp add: execute_tokens_def)
        ultimately have "quiet w (execute_tokens tokens w)"
          using q1 by (auto intro: quiet_trans)
        then show ?thesis using tr syn quiet_no_syntax by blast
      qed
    qed
  qed
qed

lemma fork_first_on_single_command:
  assumes single: "single_command tokens"
    and tr: "trace (execute_tokens tokens w) = trace w @ evs"
    and syn: "list_ex is_syntax evs"
  shows "\<exists>pid rest. evs = Forked pid # rest"
proof -
  obtain handled w1 where hb: "handle_builtin tokens w = (handled, w1)" by fastforce
  obtain commands where sp: "split_pipeline tokens = Inr commands" "length commands = 1"
    using single by (auto simp: single_command_def split: sum.splits)
  show ?thesis
  proof (cases handled)
    case True
    then have "execute_tokens tokens w = w1" using hb by (simp add: execute_tokens_def)
    then show ?thesis using handle_builtin_trace [of tokens w] hb tr syn by auto
  next
    case False
    then have "w1 = w" using hb handle_builtin_unhandled [of tokens w w1] by simp
    then have "execute_tokens tokens w = execute_command tokens w"
      using hb False sp by (simp add: execute_tokens_def)
    then show ?thesis using trace_execute_command [of tokens w] tr syn by auto
  qed
qed

text \<open>
  On a line of one command whose last token is one of the four redirection operators,
  behind arguments only, the child reports the missing file name after the fork.
\<close>

lemma split_loop_no_pipe:
  "''|'' \<notin> set ts \<Longrightarrow>
   split_loop ts seg commands
     = (if seg @ ts = [] then Inl MissingCommand else Inr (commands @ [seg @ ts]))"
  by (induction ts arbitrary: seg) auto

lemma setup_loop_arguments:
  "list_all (\<lambda>t. t \<notin> {''<'', ''>'', ''2>'', ''>>'', ''|''}) as \<Longrightarrow>
   setup_loop (as @ [t]) new_args w = setup_loop [t] (new_args @ as) w"
proof (induction as arbitrary: new_args)
  case Nil
  show ?case by simp
next
  case (Cons a as)
  obtain f ts where rest: "as @ [t] = f # ts" by (cases as) auto
  have "setup_loop ((a # as) @ [t]) new_args w = setup_loop (as @ [t]) (new_args @ [a]) w"
    using Cons.prems by (simp add: rest)
  then show ?case using Cons by simp
qed

lemma missing_file_reported_by_child:
  assumes args: "as \<noteq> []" "list_all (\<lambda>t. t \<notin> {''<'', ''>'', ''2>'', ''>>'', ''|''}) as"
    and not_builtin: "hd as \<noteq> ''cd''" "hd as \<noteq> ''exit''"
    and last: "t \<in> {''<'', ''>'', ''2>'', ''>>''}"
    and fork: "forks_left w \<noteq> 0"
  shows "single_command (as @ [t])
    \<and> trace (execute_tokens (as @ [t]) w)
      = trace w @ [Forked (length (children w)),
                   Report (SyntaxError MissingRedirectTarget),
                   Waited (length (children w))]"
proof -
  have no_pipe: "''|'' \<notin> set (as @ [t])"
    using args(2) last by (auto simp: list_all_iff)
  have split: "split_pipeline (as @ [t]) = Inr [as @ [t]]"
    using split_loop_no_pipe [OF no_pipe, of "[]" "[]"] by (simp add: split_pipeline_def)
  have builtin: "handle_builtin (as @ [t]) w = (False, w)"
    using args(1) not_builtin by (cases as) (simp_all add: handle_builtin_def)
  define w1 where "w1 = w\<lparr>forks_left := forks_left w - 1,
      trace := trace w @ [Forked (length (children w))]\<rparr>"
  have loop: "setup_loop (as @ [u]) [] w1 = setup_loop [u] as w1" for u
    using setup_loop_arguments [OF args(2), of u "[]" w1] by simp
  consider "t = ''<''" | "t = ''>''" | "t = ''2>''" | "t = ''>>''" using last by auto
  then have child: "command_child (as @ [t]) w1
      = (ExitFailure, report (SyntaxError MissingRedirectTarget) w1)"
    by cases (simp_all add: command_child_def setup_redirection_def loop)
  have "trace (execute_command (as @ [t]) w)
      = trace w @ [Forked (length (children w)),
                   Report (SyntaxError MissingRedirectTarget),
                   Waited (length (children w))]"
    using fork child
    by (simp add: execute_command_def sys_fork_def Let_def w1_def [symmetric] report_def)
      (simp add: w1_def sys_waitpid_def)
  then show ?thesis
    using split builtin by (simp add: single_command_def execute_tokens_def)
qed

lemma execute_line_tokens:
  "execute_line input w = execute_tokens (tokens_of_line input) w \<or> execute_line input w = w"
  by (simp add: execute_line_def tokens_of_line_def Let_def)




end
